theory Spec2Isabelle
  imports Complex_Main "HOL-Library.Extended_Nat" "HOL-Library.Multiset"
begin

section \<open>Nodes and the grid\<close>

text \<open>
  A node is a Python object; the cost dictionaries and the comparisons \<open>node != grid.start\<close>,
  \<open>value != node\<close>, \<open>node == grid.end\<close> use its identity. A node is therefore a
  reference (a natural number) and its attributes live in the grid, which is the store the
  engine mutates.
\<close>

type_synonym node = nat

text \<open>
  Modelled from the spec: the Node class is not among the sources. The spec gives a node one
  mutually exclusive state tag out of Unchecked, Checked, Start, End, Path, Barrier, the
  queries \<open>isStart\<close>, \<open>isEnd\<close>, \<open>isChecked\<close>, \<open>isUnchecked\<close> and the mutators
  \<open>check()\<close>, \<open>uncheck()\<close>, \<open>markPath()\<close>. The method \<open>check()\<close> is
  \<open>node_check\<close> here, \<open>markPath()\<close> is the \<open>make_path()\<close> of the code.
\<close>

datatype tag = Unchecked | Checked | Start | End | Path | Barrier

record grid =
  cells :: "node list list"
  start :: node
  goal :: node
  pos :: "node \<Rightarrow> int \<times> int"
  neighbors :: "node \<Rightarrow> node list"
  state :: "node \<Rightarrow> tag"
  been_checked :: "node \<Rightarrow> bool"
  draws :: nat

text \<open>
  \<open>cells\<close> is \<open>grid.grid\<close> (the rows), \<open>goal\<close> is \<open>grid.end\<close>, \<open>pos n\<close> is
  \<open>n.get_pos()\<close>, \<open>neighbors n\<close> is \<open>n.neighbors\<close>, \<open>been_checked n\<close> is the attribute
  of that name, which the engine only reads. \<open>draws\<close> counts the calls of the redraw
  callback \<open>grid.draw\<close>, the only thing the engine can observe of it.
\<close>

definition is_checked :: "grid \<Rightarrow> node \<Rightarrow> bool" where
  "is_checked gr n = (state gr n = Checked)"

definition is_unchecked :: "grid \<Rightarrow> node \<Rightarrow> bool" where
  "is_unchecked gr n = (state gr n = Unchecked)"

definition is_start :: "grid \<Rightarrow> node \<Rightarrow> bool" where
  "is_start gr n = (state gr n = Start)"

definition is_end :: "grid \<Rightarrow> node \<Rightarrow> bool" where
  "is_end gr n = (state gr n = End)"

definition node_check :: "grid \<Rightarrow> node \<Rightarrow> grid" where
  "node_check gr n = gr\<lparr>state := (state gr)(n := Checked)\<rparr>"

definition uncheck :: "grid \<Rightarrow> node \<Rightarrow> grid" where
  "uncheck gr n = gr\<lparr>state := (state gr)(n := Unchecked)\<rparr>"

definition make_path :: "grid \<Rightarrow> node \<Rightarrow> grid" where
  "make_path gr n = gr\<lparr>state := (state gr)(n := Path)\<rparr>"

definition draw :: "grid \<Rightarrow> grid" where
  "draw gr = gr\<lparr>draws := Suc (draws gr)\<rparr>"

datatype error = KeyError | ValueError | ZeroDivisionError | IndexError | TypeError

section \<open>The heuristics of RP.py\<close>

text \<open>
  Grid positions are pairs of Python integers. Results that Python computes in floating
  point (powers, square roots) are idealised as real numbers; \<open>float("inf")\<close> is a value
  of its own.
\<close>

datatype pyfloat = Infinity | Finite real

definition determinant_2x2 :: "int list list \<Rightarrow> error + int" where
  "determinant_2x2 matrix =
     (if length matrix < 2 \<or> length (matrix ! 0) < 2 \<or> length (matrix ! 1) < 2
      then Inl IndexError
      else Inr (matrix ! 0 ! 0 * matrix ! 1 ! 1 - matrix ! 0 ! 1 * matrix ! 1 ! 0))"

definition covariance_matrix :: "int \<times> int \<Rightarrow> int \<times> int \<Rightarrow> int list list" where
  "covariance_matrix point1 point2 =
     (let x1 = fst point1; y1 = snd point1;
          x2 = fst point2; y2 = snd point2;
          cov_x_x = (x1 - x2) ^ 2;
          cov_y_y = (y1 - y2) ^ 2;
          cov_x_y = (x1 - x2) * (y1 - y2)
      in [[cov_x_x, cov_x_y], [cov_x_y, cov_y_y]])"

text \<open>
  The loop of \<open>mahalanobis\<close> adds \<open>d * d / matrix[i][i]\<close> for the two coordinates; a zero
  on the diagonal raises ZeroDivisionError.
\<close>

fun mahalanobis_sum :: "int list list \<Rightarrow> (nat \<times> int) list \<Rightarrow> real \<Rightarrow> error + real" where
  "mahalanobis_sum matrix [] result = Inr result"
| "mahalanobis_sum matrix ((i, d) # rest) result =
     (if matrix ! i ! i = 0 then Inl ZeroDivisionError
      else mahalanobis_sum matrix rest (result + real_of_int (d * d) / real_of_int (matrix ! i ! i)))"

definition mahalanobis :: "grid \<Rightarrow> node \<Rightarrow> node \<Rightarrow> error + pyfloat" where
  "mahalanobis gr node1 node2 =
     (let matrix = covariance_matrix (pos gr node1) (pos gr node2) in
      (case determinant_2x2 matrix of
         Inl e \<Rightarrow> Inl e
       | Inr det \<Rightarrow>
           if real_of_int det < 1 / 10 ^ 10 then Inr Infinity
           else
             (let diff = [fst (pos gr node1) - fst (pos gr node2),
                          snd (pos gr node1) - snd (pos gr node2)]
              in (case mahalanobis_sum matrix (List.enumerate 0 diff) 0 of
                    Inl e \<Rightarrow> Inl e
                  | Inr result \<Rightarrow> Inr (Finite (sqrt result))))))"

text \<open>
  Python's \<open>b ** e\<close> on a non-negative base: a zero base with a negative exponent raises
  ZeroDivisionError, and \<open>0 ** 0\<close> is 1.
\<close>

definition py_pow :: "real \<Rightarrow> real \<Rightarrow> error + real" where
  "py_pow b e =
     (if b = 0 \<and> e < 0 then Inl ZeroDivisionError
      else Inr (if e = 0 then 1 else b powr e))"

definition minkowski :: "grid \<Rightarrow> node \<Rightarrow> node \<Rightarrow> real \<Rightarrow> error + real" where
  "minkowski gr node1 node2 p =
     (let x1 = fst (pos gr node1); y1 = snd (pos gr node1);
          x2 = fst (pos gr node2); y2 = snd (pos gr node2)
      in (case py_pow (real_of_int \<bar>x1 - x2\<bar>) p of
            Inl e \<Rightarrow> Inl e
          | Inr d1 \<Rightarrow>
              (case py_pow (real_of_int \<bar>y1 - y2\<bar>) p of
                 Inl e \<Rightarrow> Inl e
               | Inr d2 \<Rightarrow>
                   if p = 0 then Inl ZeroDivisionError
                   else py_pow (d1 + d2) (1 / p))))"

text \<open>
  \<open>check(current)\<close> of RP.py marks a node as visited unless it is the start or the end.
\<close>

definition check :: "grid \<Rightarrow> node \<Rightarrow> grid" where
  "check gr current =
     (if \<not> is_start gr current \<and> \<not> is_end gr current then node_check gr current else gr)"

definition manhattan :: "grid \<Rightarrow> node \<Rightarrow> node \<Rightarrow> int" where
  "manhattan gr node1 node2 =
     (let x1 = fst (pos gr node1); y1 = snd (pos gr node1);
          x2 = fst (pos gr node2); y2 = snd (pos gr node2)
      in \<bar>x1 - x2\<bar> + \<bar>y1 - y2\<bar>)"

text \<open>
  \<open>d_manhattan\<close> starts its penalty at \<open>len(node1.neighbors)\<close> and takes one off for
  each neighbor that is neither checked nor unchecked.
\<close>

fun blocked_penalty :: "grid \<Rightarrow> node list \<Rightarrow> int \<Rightarrow> int" where
  "blocked_penalty gr [] penalty = penalty"
| "blocked_penalty gr (n # ns) penalty =
     (if \<not> is_checked gr n \<and> \<not> is_unchecked gr n
      then blocked_penalty gr ns (penalty - 1)
      else blocked_penalty gr ns penalty)"

definition d_manhattan :: "grid \<Rightarrow> node \<Rightarrow> node \<Rightarrow> int" where
  "d_manhattan gr node1 node2 =
     (let x1 = fst (pos gr node1); y1 = snd (pos gr node1);
          x2 = fst (pos gr node2); y2 = snd (pos gr node2)
      in \<bar>x1 - x2\<bar> + \<bar>y1 - y2\<bar>
           + blocked_penalty gr (neighbors gr node1) (int (length (neighbors gr node1))))"

section \<open>The engine of LPAStar.py\<close>

text \<open>
  The cost dictionaries \<open>g\<close> and \<open>rhs\<close> hold \<open>float("inf")\<close> or a count of unit
  edges: an extended natural number. A lookup of a missing key raises KeyError. A key of the
  open list is a pair, ordered as Python orders tuples.
\<close>

type_synonym costs = "node \<rightharpoonup> enat"
type_synonym key = "enat \<times> enat"
type_synonym entry = "key \<times> node"

definition key_less :: "key \<Rightarrow> key \<Rightarrow> bool" where
  "key_less a b = (fst a < fst b \<or> (fst a = fst b \<and> snd a < snd b))"

definition get_checked_neighbors :: "grid \<Rightarrow> node \<Rightarrow> node list" where
  "get_checked_neighbors gr n =
     filter (\<lambda>neighbor. is_checked gr neighbor \<or> is_start gr neighbor) (neighbors gr n)"

text \<open>
  \<open>min(xs, key=lambda x: costs[x])\<close>: ValueError on an empty list, KeyError at the first
  element that \<open>costs\<close> lacks, otherwise the first element of least cost.
\<close>

fun min_scan :: "costs \<Rightarrow> node list \<Rightarrow> node \<Rightarrow> enat \<Rightarrow> error + node" where
  "min_scan costs [] best bv = Inr best"
| "min_scan costs (x # xs) best bv =
     (case costs x of
        None \<Rightarrow> Inl KeyError
      | Some v \<Rightarrow> if v < bv then min_scan costs xs x v else min_scan costs xs best bv)"

fun min_by_cost :: "costs \<Rightarrow> node list \<Rightarrow> error + node" where
  "min_by_cost costs [] = Inl ValueError"
| "min_by_cost costs (x # xs) =
     (case costs x of None \<Rightarrow> Inl KeyError | Some v \<Rightarrow> min_scan costs xs x v)"

text \<open>
  \<open>reconstruct_path\<close> mutates the grid and may raise or run forever. The fuel bounds the
  number of passes through its loop; \<open>None\<close> is a run that needs more. A raised error comes
  with the grid as the raise leaves it.
\<close>

fun reconstruct_path :: "nat \<Rightarrow> grid \<Rightarrow> node \<Rightarrow> costs \<Rightarrow> (error \<times> grid + grid) option" where
  "reconstruct_path fuel gr current costs =
     (if is_start gr current then Some (Inr gr)
      else case fuel of
        0 \<Rightarrow> None
      | Suc fuel' \<Rightarrow>
          (case min_by_cost costs (get_checked_neighbors gr current) of
             Inl e \<Rightarrow> Some (Inl (e, gr))
           | Inr nxt \<Rightarrow>
               if is_start gr nxt then Some (Inr gr)
               else reconstruct_path fuel' (draw (make_path gr nxt)) nxt costs))"

declare reconstruct_path.simps [simp del]

text \<open>
  \<open>calc_key\<close> calls \<open>heuristic("manhattan", node, end)\<close>, which selects
  \<open>manhattan\<close>. The RP module of the engine's own package is not among the sources;
  the \<open>manhattan\<close> of RP.py above and the spec agree on the sum of the coordinate
  distances.
\<close>

definition calc_key :: "grid \<Rightarrow> node \<Rightarrow> node \<Rightarrow> costs \<Rightarrow> costs \<Rightarrow> error + key" where
  "calc_key gr e n g rhs =
     (case g n of
        None \<Rightarrow> Inl KeyError
      | Some gv \<Rightarrow>
          (case rhs n of
             None \<Rightarrow> Inl KeyError
           | Some rv \<Rightarrow>
               Inr (min gv rv + enat (nat (manhattan gr n e)), min gv rv)))"

text \<open>
  \<open>heapq\<close> keeps the open list as a binary heap inside a Python list. The model keeps the
  entries in a list and abstracts from the heap layout: \<open>heapify\<close> leaves the entries as
  they are, \<open>heappush\<close> adds one, and \<open>heappop\<close> takes out an entry whose key no other
  key is less than. Which of several entries with the same least key comes out depends on the
  layout and on the comparison of Node objects, neither of which the engine decides: it is
  the parameter \<open>k\<close>, an index into the entries of least key.
\<close>

definition heapify :: "entry list \<Rightarrow> entry list" where
  "heapify ol = ol"

definition heappush :: "entry list \<Rightarrow> entry \<Rightarrow> entry list" where
  "heappush ol e = ol @ [e]"

definition least_entries :: "entry list \<Rightarrow> entry list" where
  "least_entries ol = filter (\<lambda>e. \<forall>e' \<in> set ol. \<not> key_less (fst e') (fst e)) ol"

definition heappop :: "nat \<Rightarrow> entry list \<Rightarrow> entry \<times> entry list" where
  "heappop k ol =
     (let ms = least_entries ol; e = ms ! (k mod length ms) in (e, remove1 e ol))"

definition counts_for_rhs :: "grid \<Rightarrow> node \<Rightarrow> bool" where
  "counts_for_rhs gr neighbor =
     (is_checked gr neighbor \<or> is_start gr neighbor \<or> is_unchecked gr neighbor
      \<or> (is_end gr neighbor \<and> been_checked gr neighbor))"

fun scan_rhs :: "grid \<Rightarrow> costs \<Rightarrow> node list \<Rightarrow> enat \<Rightarrow> error + enat" where
  "scan_rhs gr g [] r = Inr r"
| "scan_rhs gr g (neighbor # rest) r =
     (if counts_for_rhs gr neighbor
      then (case g neighbor of
              None \<Rightarrow> Inl KeyError
            | Some gv \<Rightarrow> scan_rhs gr g rest (min r (gv + 1)))
      else scan_rhs gr g rest r)"

definition update_vertex ::
  "grid \<Rightarrow> node \<Rightarrow> costs \<Rightarrow> costs \<Rightarrow> entry list \<Rightarrow> error + costs \<times> entry list" where
  "update_vertex gr n rhs g ol =
     (if n \<noteq> start gr then
        (case scan_rhs gr g (neighbors gr n) \<infinity> of
           Inl e \<Rightarrow> Inl e
         | Inr r \<Rightarrow>
             let rhs' = rhs(n \<mapsto> r);
                 ol' = heapify (filter (\<lambda>(k, v). v \<noteq> n) ol)
             in (case g n of
                   None \<Rightarrow> Inl KeyError
                 | Some gv \<Rightarrow>
                     if gv \<noteq> r
                     then (case calc_key gr (goal gr) n g rhs' of
                             Inl e \<Rightarrow> Inl e
                           | Inr k \<Rightarrow> Inr (rhs', heappush ol' (k, n)))
                     else Inr (rhs', ol')))
      else Inr (rhs, ol))"

record lstate =
  world :: grid
  rhs_of :: costs
  g_of :: costs
  open_list :: "entry list"
  topKey :: key
  run :: bool

definition init_costs :: "grid \<Rightarrow> costs" where
  "init_costs gr = map_of (map (\<lambda>n. (n, \<infinity>)) (concat (cells gr)))"

definition lpa_init :: "grid \<Rightarrow> error + lstate" where
  "lpa_init gr =
     (let rhs0 = (init_costs gr)(start gr \<mapsto> 0); g0 = init_costs gr in
      case calc_key gr (goal gr) (start gr) g0 rhs0 of
        Inl e \<Rightarrow> Inl e
      | Inr k \<Rightarrow>
          Inr \<lparr>world = gr, rhs_of = rhs0, g_of = g0, open_list = [(k, start gr)],
               topKey = k, run = True\<rparr>)"

definition loop_cond :: "lstate \<Rightarrow> error + bool" where
  "loop_cond s =
     (case calc_key (world s) (goal (world s)) (goal (world s)) (g_of s) (rhs_of s) of
        Inl e \<Rightarrow> Inl e
      | Inr ke \<Rightarrow>
          Inr ((key_less (topKey s) ke \<or> rhs_of s (goal (world s)) \<noteq> g_of s (goal (world s)))
               \<and> run s))"

text \<open>Lines 136 to 140: the dequeued node is settled, or reset and updated.\<close>

definition settle :: "lstate \<Rightarrow> node \<Rightarrow> error + lstate" where
  "settle s n =
     (case g_of s n of
        None \<Rightarrow> Inl KeyError
      | Some gv \<Rightarrow>
          (case rhs_of s n of
             None \<Rightarrow> Inl KeyError
           | Some rv \<Rightarrow>
               if gv > rv then Inr (s\<lparr>g_of := (g_of s)(n \<mapsto> rv)\<rparr>)
               else
                 (let g' = (g_of s)(n \<mapsto> \<infinity>) in
                  (case update_vertex (world s) n (rhs_of s) g' (open_list s) of
                     Inl e \<Rightarrow> Inl e
                   | Inr (rhs', ol') \<Rightarrow>
                       Inr (s\<lparr>rhs_of := rhs', g_of := g', open_list := ol'\<rparr>)))))"

text \<open>Lines 143 to 150: the loop over the neighbors of the dequeued node.\<close>

fun update_neighbors :: "lstate \<Rightarrow> node list \<Rightarrow> error + lstate" where
  "update_neighbors s [] = Inr s"
| "update_neighbors s (neighbor # rest) =
     (let gr = world s;
          gr' = (if \<not> is_start gr neighbor \<and> \<not> is_end gr neighbor \<and> \<not> is_checked gr neighbor
                 then uncheck gr neighbor else gr)
      in case update_vertex gr' neighbor (rhs_of s) (g_of s) (open_list s) of
           Inl e \<Rightarrow> Inl e
         | Inr (rhs', ol') \<Rightarrow>
             update_neighbors (s\<lparr>world := gr', rhs_of := rhs', open_list := ol'\<rparr>) rest)"

text \<open>
  Lines 153 to 161: the redraw, the check of the dequeued node and, for the end node, the
  reconstruction of the path. \<open>rfuel\<close> is the fuel of \<open>reconstruct_path\<close>.
\<close>

definition finish_pass :: "nat \<Rightarrow> lstate \<Rightarrow> node \<Rightarrow> (error + lstate) option" where
  "finish_pass rfuel s n =
     (let gr3 = draw (world s);
          gr4 = (if \<not> is_start gr3 n \<and> \<not> is_end gr3 n then node_check gr3 n else gr3)
      in if n = goal gr4
         then (case reconstruct_path rfuel gr4 n (rhs_of s) of
                 None \<Rightarrow> None
               | Some (Inl (e, gr5)) \<Rightarrow> Some (Inl e)
               | Some (Inr gr5) \<Rightarrow> Some (Inr (s\<lparr>world := gr5\<rparr>)))
         else Some (Inr (s\<lparr>world := gr4\<rparr>)))"

text \<open>
  Lines 132 and 136 to 161: one pass through the loop body once an entry is there to be
  dequeued.
\<close>

definition lpa_body :: "nat \<Rightarrow> nat \<Rightarrow> lstate \<Rightarrow> (error + lstate) option" where
  "lpa_body rfuel k s =
     (case heappop k (open_list s) of
        ((tk, n), ol) \<Rightarrow>
          (case settle (s\<lparr>open_list := ol, topKey := tk\<rparr>) n of
             Inl e \<Rightarrow> Some (Inl e)
           | Inr s1 \<Rightarrow>
               (case update_neighbors s1 (neighbors (world s1) n) of
                  Inl e \<Rightarrow> Some (Inl e)
                | Inr s2 \<Rightarrow> finish_pass rfuel s2 n)))"

datatype outcome = Converged | Cancelled | NoPath

datatype step = Exit outcome lstate | Continue lstate

text \<open>
  The first statement of the loop body is \<open>run = check(pygame.event.get(), run)\<close>. The
  module \<open>RP\<close> of its own package, from which \<open>LPAStar.py\<close> imports \<open>check\<close>, is not
  among the sources, so what this call does is a parameter of the engine: \<open>poll i r\<close> is
  the outcome of the call in pass \<open>i\<close> when \<open>run\<close> is \<open>r\<close>, either the exception it
  raises or the truth value of what it returns, which becomes \<open>run\<close>. The spec describes
  the call as the cancellation query, which answers "continue running?" with a boolean once
  per pass; \<open>check_poll\<close> below is the call when \<open>check\<close> is the function of RP.py.

  \<open>lpa_step\<close> is one evaluation of the loop condition and, if it holds, one pass through
  the body. The loop is left with \<open>Converged\<close> when the condition fails while \<open>run\<close>
  still holds, with \<open>Cancelled\<close> when it fails after the query has cleared \<open>run\<close>, and
  with \<open>NoPath\<close> by the \<open>break\<close> on an empty open list.
\<close>

definition lpa_step ::
  "nat \<Rightarrow> (nat \<Rightarrow> bool \<Rightarrow> error + bool) \<Rightarrow> (nat \<Rightarrow> nat) \<Rightarrow> nat \<Rightarrow> lstate \<Rightarrow> (error + step) option" where
  "lpa_step rfuel poll tie i s =
     (case loop_cond s of
        Inl e \<Rightarrow> Some (Inl e)
      | Inr c \<Rightarrow>
          if \<not> c then Some (Inr (Exit (if run s then Converged else Cancelled) s))
          else
            (case poll i (run s) of
               Inl e \<Rightarrow> Some (Inl e)
             | Inr b \<Rightarrow>
                 let s' = s\<lparr>run := b\<rparr> in
                 if open_list s' = [] then Some (Inr (Exit NoPath s'))
                 else (case lpa_body rfuel (tie i) s' of
                         None \<Rightarrow> None
                       | Some (Inl e) \<Rightarrow> Some (Inl e)
                       | Some (Inr s'') \<Rightarrow> Some (Inr (Continue s'')))))"

fun lpa_loop ::
  "nat \<Rightarrow> nat \<Rightarrow> (nat \<Rightarrow> bool \<Rightarrow> error + bool) \<Rightarrow> (nat \<Rightarrow> nat) \<Rightarrow> nat \<Rightarrow> lstate
     \<Rightarrow> (error + outcome \<times> lstate) option" where
  "lpa_loop 0 rfuel poll tie i s = None"
| "lpa_loop (Suc fuel) rfuel poll tie i s =
     (case lpa_step rfuel poll tie i s of
        None \<Rightarrow> None
      | Some (Inl e) \<Rightarrow> Some (Inl e)
      | Some (Inr (Exit oc s')) \<Rightarrow> Some (Inr (oc, s'))
      | Some (Inr (Continue s')) \<Rightarrow> lpa_loop fuel rfuel poll tie (Suc i) s')"

definition lpa_star ::
  "nat \<Rightarrow> nat \<Rightarrow> (nat \<Rightarrow> bool \<Rightarrow> error + bool) \<Rightarrow> (nat \<Rightarrow> nat) \<Rightarrow> grid
     \<Rightarrow> (error + outcome \<times> lstate) option" where
  "lpa_star fuel rfuel poll tie gr =
     (case lpa_init gr of
        Inl e \<Rightarrow> Some (Inl e)
      | Inr s \<Rightarrow> lpa_loop fuel rfuel poll tie 0 s)"

text \<open>
  The state on which the loop condition is evaluated for the \<open>i\<close>-th time (counting from
  0), if the run gets that far.
\<close>

fun lpa_at ::
  "nat \<Rightarrow> (nat \<Rightarrow> bool \<Rightarrow> error + bool) \<Rightarrow> (nat \<Rightarrow> nat) \<Rightarrow> grid \<Rightarrow> nat \<Rightarrow> lstate option" where
  "lpa_at rfuel poll tie gr 0 = (case lpa_init gr of Inl e \<Rightarrow> None | Inr s \<Rightarrow> Some s)"
| "lpa_at rfuel poll tie gr (Suc i) =
     (case lpa_at rfuel poll tie gr i of
        None \<Rightarrow> None
      | Some s \<Rightarrow>
          (case lpa_step rfuel poll tie i s of
             Some (Inr (Continue s')) \<Rightarrow> Some s'
           | _ \<Rightarrow> None))"





section \<open>What the spec says, and example grids\<close>

text \<open>
  The spec's reading of \<open>d_manhattan\<close>: the Manhattan distance plus the number of
  neighbors of \<open>node1\<close> that are neither Checked nor Unchecked.
\<close>

definition d_manhattan_spec :: "grid \<Rightarrow> node \<Rightarrow> node \<Rightarrow> int" where
  "d_manhattan_spec gr node1 node2 =
     manhattan gr node1 node2
       + int (length (filter (\<lambda>n. \<not> is_checked gr n \<and> \<not> is_unchecked gr n)
                        (neighbors gr node1)))"

text \<open>
  The spec's reading of \<open>updateVertex\<close>: the new \<open>rhs\<close> of a node is the least
  \<open>g[neighbor] + 1\<close> over the neighbors that count, or infinity if there is none; the
  key of a node is \<open>(min(g, rhs) + h, min(g, rhs))\<close>.
\<close>

definition rhs_spec :: "grid \<Rightarrow> costs \<Rightarrow> node \<Rightarrow> enat" where
  "rhs_spec gr g n =
     (let vs = map (\<lambda>nb. the (g nb) + 1) (filter (counts_for_rhs gr) (neighbors gr n))
      in if vs = [] then \<infinity> else Min (set vs))"

definition calcKey_spec :: "grid \<Rightarrow> costs \<Rightarrow> costs \<Rightarrow> node \<Rightarrow> key" where
  "calcKey_spec gr g rhs n =
     (min (the (g n)) (the (rhs n)) + enat (nat (manhattan gr n (goal gr))),
      min (the (g n)) (the (rhs n)))"

text \<open>
  The grid and the current node on which the loop condition of \<open>reconstruct_path\<close> is
  evaluated for the \<open>k\<close>-th time (counting from 0), if the walk gets that far.
\<close>

fun path_at :: "nat \<Rightarrow> grid \<Rightarrow> node \<Rightarrow> costs \<Rightarrow> (grid \<times> node) option" where
  "path_at 0 gr current costs = Some (gr, current)"
| "path_at (Suc k) gr current costs =
     (if is_start gr current then None
      else case min_by_cost costs (get_checked_neighbors gr current) of
        Inl e \<Rightarrow> None
      | Inr nxt \<Rightarrow>
          if is_start gr nxt then None
          else path_at k (draw (make_path gr nxt)) nxt costs)"

text \<open>
  What a run leaves to be observed: how the loop was left, the open list, and the key of
  the end node computed from the final \<open>g\<close> and \<open>rhs\<close>.
\<close>

definition exit_view ::
  "(error + outcome \<times> lstate) option \<Rightarrow> (outcome \<times> entry list \<times> (error + key)) option" where
  "exit_view r =
     (case r of
        Some (Inr (oc, s)) \<Rightarrow>
          Some (oc, open_list s,
                calc_key (world s) (goal (world s)) (goal (world s)) (g_of s) (rhs_of s))
      | _ \<Rightarrow> None)"

text \<open>
  The invariant of the open list: the two cost maps have the same keys, no node is queued
  twice, and a node is queued if and only if its \<open>g\<close> and \<open>rhs\<close> differ. The invariant
  of the loop adds that \<open>rhs[start]\<close> is 0. The engine changes the node states and counts
  the redraws; the rest of the grid, its frame, stays.
\<close>

definition open_inv :: "costs \<Rightarrow> costs \<Rightarrow> entry list \<Rightarrow> bool" where
  "open_inv rhs g ol =
     (dom rhs = dom g \<and> distinct (map snd ol) \<and> (\<forall>n. (n \<in> snd ` set ol) = (g n \<noteq> rhs n)))"

definition same_frame :: "grid \<Rightarrow> grid \<Rightarrow> bool" where
  "same_frame gr gr' =
     (cells gr' = cells gr \<and> start gr' = start gr \<and> goal gr' = goal gr \<and> pos gr' = pos gr
      \<and> neighbors gr' = neighbors gr \<and> been_checked gr' = been_checked gr)"

definition state_inv :: "lstate \<Rightarrow> bool" where
  "state_inv s =
     (open_inv (rhs_of s) (g_of s) (open_list s) \<and> rhs_of s (start (world s)) = Some 0)"

text \<open>
  For the open list at the exit: \<open>lookahead\<close> is the scan of \<open>update_vertex\<close> as
  a total function, in which a neighbor that does not count, or that \<open>g\<close> lacks,
  contributes infinity. A node is live unless it is Path or Barrier. A grid advances when
  nodes that are neither Start nor End become Unchecked or Checked, as the main loop makes
  them. A grid is quiet when every node that is not live has an infinite \<open>g\<close>, and
  symmetric when its neighbor lists are.
\<close>

definition gval :: "costs \<Rightarrow> node \<Rightarrow> enat" where
  "gval g w = (case g w of Some v \<Rightarrow> v | None \<Rightarrow> \<infinity>)"

definition wv :: "grid \<Rightarrow> costs \<Rightarrow> node \<Rightarrow> enat" where
  "wv gr g w = (if counts_for_rhs gr w then gval g w + 1 else \<infinity>)"

fun lookahead :: "grid \<Rightarrow> costs \<Rightarrow> node list \<Rightarrow> enat \<Rightarrow> enat" where
  "lookahead gr g [] r = r"
| "lookahead gr g (w # ws) r = lookahead gr g ws (min r (wv gr g w))"

definition live :: "grid \<Rightarrow> node \<Rightarrow> bool" where
  "live gr w = (state gr w \<noteq> Path \<and> state gr w \<noteq> Barrier)"

definition advance :: "grid \<Rightarrow> grid \<Rightarrow> bool" where
  "advance gr gr' =
     (same_frame gr gr' \<and>
      (\<forall>w. state gr' w = state gr w \<or>
           (state gr w \<noteq> Start \<and> state gr w \<noteq> End
            \<and> (state gr' w = Unchecked \<or> state gr' w = Checked))))"

definition quiet :: "grid \<Rightarrow> costs \<Rightarrow> bool" where
  "quiet gr g = (\<forall>w. \<not> live gr w \<longrightarrow> gval g w = \<infinity>)"

definition symmetric :: "grid \<Rightarrow> bool" where
  "symmetric gr = (\<forall>a b. b \<in> set (neighbors gr a) \<longrightarrow> a \<in> set (neighbors gr b))"

text \<open>
  The invariants of a run on a symmetric grid whose start is tagged Start: the key of
  every entry is the key of its node, and \<open>rhs\<close> of every node but the start (and but
  the nodes of \<open>U\<close>, whose update is pending) is what the scan would compute.
  \<open>loop_inv\<close> holds until the end node is dequeued, \<open>last_inv\<close> during the pass that
  dequeues it, with \<open>g0\<close> the \<open>g\<close> before that pass and \<open>r\<close> the cost of the end,
  and \<open>final_inv\<close> after it.
\<close>

definition keys_fresh :: "grid \<Rightarrow> costs \<Rightarrow> costs \<Rightarrow> entry list \<Rightarrow> bool" where
  "keys_fresh gr g rhs ol = (\<forall>e \<in> set ol. calc_key gr (goal gr) (snd e) g rhs = Inr (fst e))"

definition rhs_fresh :: "grid \<Rightarrow> costs \<Rightarrow> costs \<Rightarrow> node set \<Rightarrow> bool" where
  "rhs_fresh gr g rhs U =
     (\<forall>m \<in> dom g. m \<noteq> start gr \<longrightarrow> m \<notin> U \<longrightarrow>
        rhs m = Some (lookahead gr g (neighbors gr m) \<infinity>))"

definition pass_inv :: "lstate \<Rightarrow> node set \<Rightarrow> bool" where
  "pass_inv s U =
     (state_inv s \<and> keys_fresh (world s) (g_of s) (rhs_of s) (open_list s)
      \<and> rhs_fresh (world s) (g_of s) (rhs_of s) U \<and> quiet (world s) (g_of s)
      \<and> (\<forall>e \<in> set (open_list s). live (world s) (snd e))
      \<and> is_start (world s) (start (world s)))"

definition loop_inv :: "lstate \<Rightarrow> bool" where
  "loop_inv s =
     (pass_inv s {} \<and> symmetric (world s) \<and> snd (topKey s) \<noteq> \<infinity>
      \<and> gval (g_of s) (goal (world s)) = \<infinity>)"

definition last_inv :: "costs \<Rightarrow> enat \<Rightarrow> lstate \<Rightarrow> bool" where
  "last_inv g0 r s =
     (g_of s = g0(goal (world s) \<mapsto> r) \<and> gval g0 (goal (world s)) = \<infinity> \<and> r \<noteq> \<infinity>
      \<and> state_inv s \<and> keys_fresh (world s) (g_of s) (rhs_of s) (open_list s)
      \<and> quiet (world s) (g_of s) \<and> is_start (world s) (start (world s))
      \<and> (\<forall>en \<in> set (open_list s). \<not> key_less (fst en) (r, r))
      \<and> (\<forall>m \<in> dom (g_of s). m \<noteq> start (world s) \<longrightarrow>
            rhs_of s m = Some (lookahead (world s) (g_of s) (neighbors (world s) m) \<infinity>)
            \<or> rhs_of s m = Some (lookahead (world s) g0 (neighbors (world s) m) \<infinity>))
      \<and> rhs_of s (goal (world s)) = Some r
      \<and> (goal (world s) \<noteq> start (world s) \<longrightarrow>
            lookahead (world s) g0 (neighbors (world s) (goal (world s))) \<infinity> = r))"

definition final_inv :: "lstate \<Rightarrow> bool" where
  "final_inv s =
     (\<exists>r. g_of s (goal (world s)) = Some r \<and> rhs_of s (goal (world s)) = Some r
        \<and> topKey s = (r, r)
        \<and> keys_fresh (world s) (g_of s) (rhs_of s) (open_list s)
        \<and> (\<forall>en \<in> set (open_list s). \<not> key_less (fst en) (r, r)))"

text \<open>A grid of one row with two cells: the start and a free cell next to it.\<close>

definition line2 :: grid where
  "line2 = \<lparr>cells = [[0, 1]], start = 0, goal = 1,
            pos = (\<lambda>n. (0, int n)),
            neighbors = (\<lambda>n. if n = 0 then [1] else if n = 1 then [0] else []),
            state = (\<lambda>n. if n = 0 then Start else if n = 1 then Unchecked else Barrier),
            been_checked = (\<lambda>n. False), draws = 0\<rparr>"

definition line2_costs :: costs where
  "line2_costs = [0 \<mapsto> 0, 1 \<mapsto> \<infinity>]"

text \<open>
  A row of three cells, start, barrier, end: the end is walled off. And the same row after
  a search has checked the middle cell while the first cell is no start.
\<close>

definition walled :: grid where
  "walled = \<lparr>cells = [[0, 1, 2]], start = 0, goal = 2,
             pos = (\<lambda>n. (0, int n)),
             neighbors = (\<lambda>n. if n = 0 then [1] else if n = 1 then [2, 0]
                                else if n = 2 then [1] else []),
             state = (\<lambda>n. if n = 0 then Start else if n = 2 then End else Barrier),
             been_checked = (\<lambda>n. False), draws = 0\<rparr>"

definition stub :: grid where
  "stub = \<lparr>cells = [[0, 1, 2]], start = 0, goal = 2,
           pos = (\<lambda>n. (0, int n)),
           neighbors = (\<lambda>n. if n = 0 then [1] else if n = 1 then [2, 0]
                              else if n = 2 then [1] else []),
           state = (\<lambda>n. if n = 0 then Unchecked else if n = 1 then Checked
                          else if n = 2 then End else Barrier),
           been_checked = (\<lambda>n. False), draws = 0\<rparr>"

definition stub_costs :: costs where
  "stub_costs = [0 \<mapsto> \<infinity>, 1 \<mapsto> 1, 2 \<mapsto> 2]"

text \<open>
  A grid of two rows and two columns, start at the top left and end at the bottom right,
  in which the start lists only the cell to its right as a neighbor, while the cell below
  it lists the start.
\<close>

definition one_way :: grid where
  "one_way = \<lparr>cells = [[0, 1], [2, 3]], start = 0, goal = 3,
              pos = (\<lambda>n. (int (n div 2), int (n mod 2))),
              neighbors = (\<lambda>n. if n = 0 then [1] else if n = 1 then [3, 0]
                                 else if n = 2 then [0, 3] else if n = 3 then [1, 2] else []),
              state = (\<lambda>n. if n = 0 then Start else if n = 3 then End else Unchecked),
              been_checked = (\<lambda>n. False), draws = 0\<rparr>"

text \<open>A row of three cells with the start in the middle and the end at the right.\<close>

definition line3 :: grid where
  "line3 = \<lparr>cells = [[0, 1, 2]], start = 1, goal = 2,
            pos = (\<lambda>n. (0, int n)),
            neighbors = (\<lambda>n. if n = 0 then [1] else if n = 1 then [2, 0]
                               else if n = 2 then [1] else []),
            state = (\<lambda>n. if n = 1 then Start else if n = 2 then End else Unchecked),
            been_checked = (\<lambda>n. False), draws = 0\<rparr>"

section \<open>Properties of the heuristics\<close>

lemma blocked_penalty_count:
  "blocked_penalty gr ns p =
     p - int (length (filter (\<lambda>n. \<not> is_checked gr n \<and> \<not> is_unchecked gr n) ns))"
  by (induction ns arbitrary: p) simp_all

lemma length_filter_split:
  "int (length ns) - int (length (filter (\<lambda>n. \<not> P n) ns)) = int (length (filter P ns))"
  by (induction ns) simp_all

text \<open>
  C4, as the spec states it, fails: on \<open>line2\<close> the start has one neighbor, which is
  Unchecked, so no neighbor is "neither Checked nor Unchecked"; the spec's penalty is 0 and
  its value 1, while \<open>d_manhattan\<close> returns 2.
\<close>

theorem d_manhattan_spec_counterexample:
  "d_manhattan line2 0 1 = 2 \<and> d_manhattan_spec line2 0 1 = 1"
  by (simp add: d_manhattan_def d_manhattan_spec_def manhattan_def line2_def Let_def
      is_checked_def is_unchecked_def)

text \<open>
  C4, amended: for every pair of nodes, \<open>d_manhattan\<close> returns the Manhattan distance
  between their positions plus the number of neighbors of \<open>node1\<close> that are Checked or
  Unchecked (all its neighbors but those that are neither).
\<close>

theorem d_manhattan_counts_open:
  "d_manhattan gr node1 node2 =
     manhattan gr node1 node2
       + int (length (filter (\<lambda>n. is_checked gr n \<or> is_unchecked gr n) (neighbors gr node1)))"
  using length_filter_split [of "neighbors gr node1" "\<lambda>n. is_checked gr n \<or> is_unchecked gr n"]
  by (simp add: d_manhattan_def manhattan_def Let_def blocked_penalty_count)

text \<open>
  C9: for every pair of node positions, \<open>minkowski\<close> with \<open>p = 0\<close> returns no number:
  the two powers are 1 and the exponent \<open>1/p\<close> raises ZeroDivisionError.
\<close>

theorem minkowski_zero_raises: "minkowski gr node1 node2 0 = Inl ZeroDivisionError"
  by (simp add: minkowski_def py_pow_def Let_def)

lemma determinant_covariance: "determinant_2x2 (covariance_matrix p q) = Inr 0"
  by (simp add: determinant_2x2_def covariance_matrix_def Let_def power2_eq_square algebra_simps)

text \<open>
  C10: for every pair of nodes with integer positions, \<open>mahalanobis\<close> returns
  \<open>float("inf")\<close>: the determinant of the matrix of \<open>covariance_matrix\<close> is 0, below
  the threshold, so the guard is always taken.
\<close>

theorem mahalanobis_always_infinite: "mahalanobis gr node1 node2 = Inr Infinity"
  by (simp add: mahalanobis_def determinant_covariance Let_def)

section \<open>Path reconstruction\<close>

lemma reconstruct_path_start:
  "is_start gr current \<Longrightarrow> reconstruct_path fuel gr current costs = Some (Inr gr)"
  by (subst reconstruct_path.simps) simp

lemma reconstruct_path_0:
  "\<not> is_start gr current \<Longrightarrow> reconstruct_path 0 gr current costs = None"
  by (subst reconstruct_path.simps) simp

lemma reconstruct_path_Suc:
  "\<not> is_start gr current \<Longrightarrow>
   reconstruct_path (Suc fuel) gr current costs =
     (case min_by_cost costs (get_checked_neighbors gr current) of
        Inl e \<Rightarrow> Some (Inl (e, gr))
      | Inr nxt \<Rightarrow>
          if is_start gr nxt then Some (Inr gr)
          else reconstruct_path fuel (draw (make_path gr nxt)) nxt costs)"
  by (subst reconstruct_path.simps) simp

text \<open>
  C3, as the spec states it, fails: called on the walled-off end of \<open>walled\<close>, whose only
  neighbor is a barrier, \<open>reconstruct_path\<close> does not return normally; \<open>min\<close> of the
  empty list of candidates raises ValueError.
\<close>

theorem reconstruct_path_walled_counterexample:
  "reconstruct_path 3 walled 2 stub_costs = Some (Inl (ValueError, walled))"
  by (simp add: reconstruct_path.simps walled_def get_checked_neighbors_def is_start_def
      is_checked_def)

text \<open>
  C3, amended: for every starting node and cost map, if at some step the current node is
  not the start and has no neighbor that is Checked or Start, \<open>reconstruct_path\<close> raises
  ValueError there; the grid is left as it was at that step, so no further node is marked as
  Path. For a walled-off end node that step is the first one.
\<close>

theorem reconstruct_path_dead_end:
  "path_at k gr current costs = Some (gr', current') \<Longrightarrow>
   \<not> is_start gr' current' \<Longrightarrow> get_checked_neighbors gr' current' = [] \<Longrightarrow>
   reconstruct_path (k + Suc fuel) gr current costs = Some (Inl (ValueError, gr'))"
proof (induction k arbitrary: gr current)
  case 0
  then show ?case by (simp add: reconstruct_path_Suc)
next
  case (Suc k)
  from Suc.prems(1) have ns: "\<not> is_start gr current"
    by (auto split: if_splits)
  from Suc.prems(1) ns obtain nxt where
    nxt: "min_by_cost costs (get_checked_neighbors gr current) = Inr nxt"
    by (auto split: sum.splits)
  from Suc.prems(1) ns nxt have nn: "\<not> is_start gr nxt"
    by (auto split: if_splits)
  from Suc.prems(1) ns nxt nn have
    "path_at k (draw (make_path gr nxt)) nxt costs = Some (gr', current')"
    by simp
  from Suc.IH [OF this Suc.prems(2) Suc.prems(3)] ns nxt nn show ?case
    by (simp add: reconstruct_path_Suc)
qed

theorem reconstruct_path_dead_end_witness:
  "path_at 1 stub 2 stub_costs = Some (draw (make_path stub 1), 1) \<and>
   \<not> is_start (draw (make_path stub 1)) 1 \<and>
   get_checked_neighbors (draw (make_path stub 1)) 1 = [] \<and>
   reconstruct_path (1 + Suc 0) stub 2 stub_costs = Some (Inl (ValueError, draw (make_path stub 1)))"
proof -
  have a: "path_at 1 stub 2 stub_costs = Some (draw (make_path stub 1), 1)"
    by (simp add: stub_def stub_costs_def get_checked_neighbors_def is_start_def is_checked_def
        draw_def make_path_def)
  have b: "\<not> is_start (draw (make_path stub 1)) 1"
    by (simp add: stub_def is_start_def draw_def make_path_def)
  have c: "get_checked_neighbors (draw (make_path stub 1)) 1 = []"
    by (simp add: stub_def get_checked_neighbors_def is_start_def is_checked_def
        draw_def make_path_def)
  show ?thesis
    using reconstruct_path_dead_end [OF a b c, of 0] a b c by simp
qed

section \<open>The vertex update\<close>

lemma scan_rhs_Min:
  "\<forall>nb \<in> set ns. counts_for_rhs gr nb \<longrightarrow> nb \<in> dom g \<Longrightarrow>
   scan_rhs gr g ns r =
     Inr (Min (insert r (set (map (\<lambda>nb. the (g nb) + 1) (filter (counts_for_rhs gr) ns)))))"
proof (induction ns arbitrary: r)
  case Nil
  then show ?case by simp
next
  case (Cons a ns)
  show ?case
  proof (cases "counts_for_rhs gr a")
    case True
    with Cons.prems obtain gv where gv: "g a = Some gv" by auto
    have "scan_rhs gr g (a # ns) r = scan_rhs gr g ns (min r (gv + 1))"
      using True gv by simp
    also have "\<dots> = Inr (Min (insert (min r (gv + 1))
        (set (map (\<lambda>nb. the (g nb) + 1) (filter (counts_for_rhs gr) ns)))))"
      using Cons.IH Cons.prems by simp
    also have "Min (insert (min r (gv + 1))
        (set (map (\<lambda>nb. the (g nb) + 1) (filter (counts_for_rhs gr) ns))))
      = Min (insert r (set (map (\<lambda>nb. the (g nb) + 1) (filter (counts_for_rhs gr) (a # ns)))))"
      using True gv
      by (cases "set (map (\<lambda>nb. the (g nb) + 1) (filter (counts_for_rhs gr) ns)) = {}")
         (simp_all add: min.assoc min.commute min.left_commute)
    finally show ?thesis .
  next
    case False
    then show ?thesis using Cons.IH Cons.prems by simp
  qed
qed

lemma Min_insert_top:
  fixes S :: "enat set"
  assumes "finite S"
  shows "Min (insert \<infinity> S) = (if S = {} then \<infinity> else Min S)"
proof (cases "S = {}")
  case True
  then show ?thesis by simp
next
  case False
  have "Min (insert \<infinity> S) = min \<infinity> (Min S)"
    using assms False by (rule Min_insert)
  with False show ?thesis by simp
qed

lemma scan_rhs_spec:
  assumes "\<forall>nb \<in> set (neighbors gr n). counts_for_rhs gr nb \<longrightarrow> nb \<in> dom g"
  shows "scan_rhs gr g (neighbors gr n) \<infinity> = Inr (rhs_spec gr g n)"
proof -
  define vs where "vs = map (\<lambda>nb. the (g nb) + 1) (filter (counts_for_rhs gr) (neighbors gr n))"
  have "scan_rhs gr g (neighbors gr n) \<infinity> = Inr (Min (insert \<infinity> (set vs)))"
    unfolding vs_def by (rule scan_rhs_Min [OF assms])
  moreover have "Min (insert \<infinity> (set vs)) = (if set vs = {} then \<infinity> else Min (set vs))"
    by (rule Min_insert_top) simp
  moreover have "rhs_spec gr g n = (if vs = [] then \<infinity> else Min (set vs))"
    unfolding vs_def rhs_spec_def Let_def ..
  ultimately show ?thesis by simp
qed

lemma calc_key_spec:
  "g n = Some gv \<Longrightarrow> rhs n = Some rv \<Longrightarrow>
   calc_key gr (goal gr) n g rhs = Inr (calcKey_spec gr g rhs n)"
  by (simp add: calc_key_def calcKey_spec_def)

text \<open>
  C5: for the start node \<open>update_vertex\<close> changes nothing. For any other node, when
  \<open>g\<close> knows the node and its neighbors that count, it sets \<open>rhs[node]\<close> to the least
  \<open>g[neighbor] + 1\<close> over the neighbors that are Checked, Start, Unchecked or End with
  \<open>been_checked\<close> (infinity if there is none), removes every entry of the node from the
  open list, and adds \<open>(calcKey(node), node)\<close> if and only if \<open>g[node] != rhs[node]\<close>
  afterwards.
\<close>

theorem update_vertex_spec:
  "(n = start gr \<longrightarrow> update_vertex gr n rhs g ol = Inr (rhs, ol)) \<and>
   (n \<noteq> start gr \<and> n \<in> dom g \<and>
    (\<forall>nb \<in> set (neighbors gr n). counts_for_rhs gr nb \<longrightarrow> nb \<in> dom g) \<longrightarrow>
    (\<exists>ol'. update_vertex gr n rhs g ol = Inr (rhs(n \<mapsto> rhs_spec gr g n), ol') \<and>
       mset ol' = mset (filter (\<lambda>(k, v). v \<noteq> n) ol)
         + (if the (g n) \<noteq> rhs_spec gr g n
            then {#(calcKey_spec gr g (rhs(n \<mapsto> rhs_spec gr g n)) n, n)#} else {#})))"
proof (intro conjI impI)
  assume "n = start gr"
  then show "update_vertex gr n rhs g ol = Inr (rhs, ol)"
    by (simp add: update_vertex_def)
next
  assume h: "n \<noteq> start gr \<and> n \<in> dom g \<and>
    (\<forall>nb \<in> set (neighbors gr n). counts_for_rhs gr nb \<longrightarrow> nb \<in> dom g)"
  then obtain gv where gv: "g n = Some gv" by auto
  have sc: "scan_rhs gr g (neighbors gr n) \<infinity> = Inr (rhs_spec gr g n)"
    using h scan_rhs_spec by blast
  have ck: "calc_key gr (goal gr) n g (rhs(n \<mapsto> rhs_spec gr g n))
      = Inr (calcKey_spec gr g (rhs(n \<mapsto> rhs_spec gr g n)) n)"
    using gv by (simp add: calc_key_spec)
  show "\<exists>ol'. update_vertex gr n rhs g ol = Inr (rhs(n \<mapsto> rhs_spec gr g n), ol') \<and>
       mset ol' = mset (filter (\<lambda>(k, v). v \<noteq> n) ol)
         + (if the (g n) \<noteq> rhs_spec gr g n
            then {#(calcKey_spec gr g (rhs(n \<mapsto> rhs_spec gr g n)) n, n)#} else {#})"
    using h gv sc ck
    by (simp add: update_vertex_def Let_def heapify_def heappush_def)
qed

theorem update_vertex_spec_witness:
  "1 \<noteq> start line2 \<and> 1 \<in> dom line2_costs \<and>
   (\<exists>ol'. update_vertex line2 1 line2_costs line2_costs [] = Inr (line2_costs(1 \<mapsto> 1), ol') \<and>
      mset ol' = {#((1, 1), 1)#})"
proof -
  have h: "1 \<noteq> start line2 \<and> 1 \<in> dom line2_costs \<and>
    (\<forall>nb \<in> set (neighbors line2 1). counts_for_rhs line2 nb \<longrightarrow> nb \<in> dom line2_costs)"
    by (simp add: line2_def line2_costs_def)
  have r: "rhs_spec line2 line2_costs 1 = 1"
    by (simp add: rhs_spec_def line2_def line2_costs_def counts_for_rhs_def
        is_checked_def is_start_def is_unchecked_def is_end_def one_enat_def)
  have k: "calcKey_spec line2 line2_costs (line2_costs(1 \<mapsto> 1)) 1 = (1, 1)"
    by (simp add: calcKey_spec_def line2_def line2_costs_def manhattan_def zero_enat_def [symmetric])
  have i: "the (line2_costs 1) \<noteq> (1::enat)"
    by (simp add: line2_costs_def)
  show ?thesis
    using update_vertex_spec [of 1 line2 line2_costs line2_costs "[]"] h r k i by simp
qed

lemma update_vertex_rhs:
  "update_vertex gr n rhs g ol = Inr (rhs', ol') \<Longrightarrow> n \<noteq> start gr \<Longrightarrow>
   \<exists>r. scan_rhs gr g (neighbors gr n) \<infinity> = Inr r \<and> rhs' = rhs(n \<mapsto> r)"
  by (auto simp: update_vertex_def Let_def split: sum.splits option.splits if_splits)

lemma filter_entries_twice:
  "filter (\<lambda>(k, v). v \<noteq> n) (filter (\<lambda>(k, v). v \<noteq> n) ol) = filter (\<lambda>(k, v). v \<noteq> n) ol"
  by (induction ol) auto

lemma update_vertex_again:
  assumes "update_vertex gr n rhs g ol = Inr (rhs', ol')"
  shows "update_vertex gr n rhs' g ol' = Inr (rhs', ol')"
proof (cases "n = start gr")
  case True
  with assms show ?thesis by (simp add: update_vertex_def)
next
  case False
  from update_vertex_rhs [OF assms False] obtain r where
    r: "scan_rhs gr g (neighbors gr n) \<infinity> = Inr r" "rhs' = rhs(n \<mapsto> r)" by blast
  show ?thesis
    using assms False r
    by (auto simp: update_vertex_def Let_def heapify_def heappush_def filter_entries_twice
        split: sum.splits option.splits if_splits)
qed

text \<open>
  C7: \<open>update_vertex\<close> is idempotent. A second call on the same node, with the
  \<open>rhs\<close> and the open list the first call returned and \<open>g\<close> and the node states
  unchanged, returns the same \<open>rhs\<close> and an open list with the same entries.
\<close>

theorem update_vertex_idempotent:
  assumes "update_vertex gr n rhs g ol = Inr (rhs', ol')"
  shows "\<exists>ol''. update_vertex gr n rhs' g ol' = Inr (rhs', ol'') \<and> mset ol'' = mset ol'"
  using update_vertex_again [OF assms] by simp

theorem update_vertex_idempotent_witness:
  "update_vertex line2 1 line2_costs line2_costs [] = Inr (line2_costs(1 \<mapsto> 1), [((1, 1), 1)]) \<and>
   (\<exists>ol''. update_vertex line2 1 (line2_costs(1 \<mapsto> 1)) line2_costs [((1, 1), 1)]
             = Inr (line2_costs(1 \<mapsto> 1), ol'') \<and> mset ol'' = mset [((1, 1), 1)])"
proof -
  have h: "update_vertex line2 1 line2_costs line2_costs []
      = Inr (line2_costs(1 \<mapsto> 1), [((1, 1), 1)])"
    by (simp add: update_vertex_def line2_def line2_costs_def counts_for_rhs_def
        is_checked_def is_start_def is_unchecked_def is_end_def one_enat_def
        calc_key_def manhattan_def heapify_def heappush_def Let_def zero_enat_def [symmetric]
        plus_enat_simps)
  show ?thesis
    using update_vertex_idempotent [OF h] h by simp
qed

section \<open>The main loop\<close>

subsection \<open>The grid apart from the node states\<close>

lemma same_frame_refl [simp]: "same_frame gr gr"
  by (simp add: same_frame_def)

lemma same_frame_trans: "same_frame a b \<Longrightarrow> same_frame b c \<Longrightarrow> same_frame a c"
  by (simp add: same_frame_def)

lemma same_frame_mutators [simp]:
  "same_frame gr (uncheck gr n)" "same_frame gr (node_check gr n)"
  "same_frame gr (make_path gr n)" "same_frame gr (draw gr)"
  by (simp_all add: same_frame_def uncheck_def node_check_def make_path_def draw_def)

lemma reconstruct_path_frame:
  "reconstruct_path fuel gr current costs = Some (Inr gr') \<Longrightarrow> same_frame gr gr'"
proof (induction fuel arbitrary: gr current)
  case 0
  then show ?case
    by (cases "is_start gr current") (simp_all add: reconstruct_path_start reconstruct_path_0)
next
  case (Suc fuel)
  show ?case
  proof (cases "is_start gr current")
    case True
    with Suc.prems show ?thesis by (simp add: reconstruct_path_start)
  next
    case False
    show ?thesis
    proof (cases "min_by_cost costs (get_checked_neighbors gr current)")
      case (Inl e)
      with Suc.prems False show ?thesis by (simp add: reconstruct_path_Suc)
    next
      case (Inr nxt)
      show ?thesis
      proof (cases "is_start gr nxt")
        case True
        with Suc.prems False Inr show ?thesis by (simp add: reconstruct_path_Suc)
      next
        case nn: False
        from Suc.prems False Inr nn have
          "reconstruct_path fuel (draw (make_path gr nxt)) nxt costs = Some (Inr gr')"
          by (simp add: reconstruct_path_Suc)
        from Suc.IH [OF this] have "same_frame (draw (make_path gr nxt)) gr'" .
        moreover have "same_frame gr (draw (make_path gr nxt))"
          by (simp add: same_frame_def make_path_def draw_def)
        ultimately show ?thesis by (rule same_frame_trans [rotated])
      qed
    qed
  qed
qed

subsection \<open>The vertex update and the open list\<close>

lemma update_vertex_start: "update_vertex gr (start gr) rhs g ol = Inr (rhs, ol)"
  by (simp add: update_vertex_def)

lemma update_vertex_cases:
  assumes "update_vertex gr n rhs g ol = Inr (rhs', ol')" "n \<noteq> start gr"
  obtains r gv where
    "scan_rhs gr g (neighbors gr n) \<infinity> = Inr r" "g n = Some gv" "rhs' = rhs(n \<mapsto> r)"
    "gv = r \<Longrightarrow> ol' = filter (\<lambda>(k, v). v \<noteq> n) ol"
    "gv \<noteq> r \<Longrightarrow> \<exists>k. calc_key gr (goal gr) n g rhs' = Inr k \<and>
        ol' = filter (\<lambda>(k, v). v \<noteq> n) ol @ [(k, n)]"
  using assms
  by (auto simp: update_vertex_def Let_def heapify_def heappush_def
      split: sum.splits option.splits if_splits)

lemma update_vertex_rhs_start:
  assumes "update_vertex gr n rhs g ol = Inr (rhs', ol')"
  shows "rhs' (start gr) = rhs (start gr)"
proof (cases "n = start gr")
  case True
  with assms show ?thesis by (simp add: update_vertex_def)
next
  case False
  from update_vertex_cases [OF assms False] obtain r where "rhs' = rhs(n \<mapsto> r)" by metis
  with False show ?thesis by simp
qed

lemma snd_filter_entries:
  "snd ` set (filter (\<lambda>(k, v). v \<noteq> n) ol) = snd ` set ol - {n}"
  by (induction ol) auto

lemma distinct_filter_entries:
  "distinct (map snd ol) \<Longrightarrow> distinct (map snd (filter (\<lambda>(k, v). v \<noteq> n) ol))"
  by (simp add: distinct_map_filter)

lemma update_vertex_open_inv:
  assumes uv: "update_vertex gr n rhs g ol = Inr (rhs', ol')"
    and ns: "n \<noteq> start gr"
    and dm: "dom rhs = dom g"
    and ds: "distinct (map snd ol)"
    and ot: "\<forall>m. m \<noteq> n \<longrightarrow> (m \<in> snd ` set ol) = (g m \<noteq> rhs m)"
  shows "open_inv rhs' g ol'"
proof -
  from update_vertex_cases [OF uv ns] obtain r gv where
    gv: "g n = Some gv" and r': "rhs' = rhs(n \<mapsto> r)"
    and eq: "gv = r \<Longrightarrow> ol' = filter (\<lambda>(k, v). v \<noteq> n) ol"
    and ne: "gv \<noteq> r \<Longrightarrow> \<exists>k. calc_key gr (goal gr) n g rhs' = Inr k \<and>
        ol' = filter (\<lambda>(k, v). v \<noteq> n) ol @ [(k, n)]"
    by metis
  have d: "dom rhs' = dom g"
    using gv r' dm by auto
  show ?thesis
  proof (cases "gv = r")
    case True
    then have ol': "ol' = filter (\<lambda>(k, v). v \<noteq> n) ol" by (rule eq)
    have s: "snd ` set ol' = snd ` set ol - {n}"
      unfolding ol' by (rule snd_filter_entries)
    have "\<forall>m. (m \<in> snd ` set ol') = (g m \<noteq> rhs' m)"
      unfolding s using ot gv r' True by auto
    moreover have "distinct (map snd ol')"
      unfolding ol' using ds by (rule distinct_filter_entries)
    ultimately show ?thesis
      using d by (simp add: open_inv_def)
  next
    case False
    from ne [OF False] obtain k where ol': "ol' = filter (\<lambda>(k, v). v \<noteq> n) ol @ [(k, n)]"
      by blast
    have f: "snd ` set (filter (\<lambda>(k, v). v \<noteq> n) ol) = snd ` set ol - {n}"
      by (rule snd_filter_entries)
    have s: "snd ` set ol' = insert n (snd ` set ol - {n})"
      unfolding ol' using f by simp
    have "\<forall>m. (m \<in> snd ` set ol') = (g m \<noteq> rhs' m)"
      unfolding s using ot gv r' False by auto
    moreover have "distinct (map snd ol')"
    proof -
      have "distinct (map snd (filter (\<lambda>(k, v). v \<noteq> n) ol))"
        using ds by (rule distinct_filter_entries)
      moreover have "n \<notin> snd ` set (filter (\<lambda>(k, v). v \<noteq> n) ol)"
        unfolding f by simp
      ultimately show ?thesis
        unfolding ol' by simp
    qed
    ultimately show ?thesis
      using d by (simp add: open_inv_def)
  qed
qed

lemma update_vertex_open_inv_full:
  assumes uv: "update_vertex gr n rhs g ol = Inr (rhs', ol')" and inv: "open_inv rhs g ol"
  shows "open_inv rhs' g ol'"
proof (cases "n = start gr")
  case True
  with uv inv show ?thesis by (simp add: update_vertex_def)
next
  case False
  show ?thesis
    using update_vertex_open_inv [OF uv False] inv by (simp add: open_inv_def)
qed

subsection \<open>Taking the least entry out\<close>

lemma key_less_irrefl [simp]: "\<not> key_less a a"
  by (simp add: key_less_def)

lemma key_less_trans: "key_less a b \<Longrightarrow> key_less b c \<Longrightarrow> key_less a c"
  by (auto simp: key_less_def)

lemma least_exists:
  "ol \<noteq> [] \<Longrightarrow> \<exists>e \<in> set ol. \<forall>e' \<in> set ol. \<not> key_less (fst e') (fst e)"
proof (induction ol)
  case Nil
  then show ?case by simp
next
  case (Cons x xs)
  show ?case
  proof (cases "xs = []")
    case True
    then show ?thesis by simp
  next
    case False
    from Cons.IH [OF False] obtain m where
      m: "m \<in> set xs" "\<forall>e' \<in> set xs. \<not> key_less (fst e') (fst m)" by blast
    show ?thesis
    proof (cases "key_less (fst x) (fst m)")
      case True
      have "\<not> key_less (fst e') (fst x)" if "e' \<in> set xs" for e'
      proof
        assume "key_less (fst e') (fst x)"
        then have "key_less (fst e') (fst m)" using True by (rule key_less_trans)
        with m(2) that show False by blast
      qed
      then have "\<forall>e' \<in> set (x # xs). \<not> key_less (fst e') (fst x)"
        by simp
      then show ?thesis by (intro bexI [of _ x]) simp_all
    next
      case False
      with m show ?thesis by (intro bexI [of _ m]) simp_all
    qed
  qed
qed

lemma least_entries_nonempty: "ol \<noteq> [] \<Longrightarrow> least_entries ol \<noteq> []"
proof -
  assume "ol \<noteq> []"
  from least_exists [OF this] obtain e where
    "e \<in> set ol" "\<forall>e' \<in> set ol. \<not> key_less (fst e') (fst e)" by blast
  then have "e \<in> set (least_entries ol)"
    by (simp add: least_entries_def)
  then show ?thesis by auto
qed

lemma heappop_least:
  assumes "ol \<noteq> []" "heappop k ol = (e, ol')"
  shows "e \<in> set ol" "ol' = remove1 e ol" "\<forall>e' \<in> set ol. \<not> key_less (fst e') (fst e)"
proof -
  let ?ms = "least_entries ol"
  have ne: "?ms \<noteq> []" using assms(1) by (rule least_entries_nonempty)
  then have "k mod length ?ms < length ?ms" by simp
  then have "?ms ! (k mod length ?ms) \<in> set ?ms" by (rule nth_mem)
  moreover have e: "e = ?ms ! (k mod length ?ms)" and "ol' = remove1 e ol"
    using assms(2) by (auto simp: heappop_def Let_def)
  ultimately have "e \<in> set ?ms" by simp
  then show "e \<in> set ol" "\<forall>e' \<in> set ol. \<not> key_less (fst e') (fst e)"
    by (simp_all add: least_entries_def)
  show "ol' = remove1 e ol" by fact
qed

lemma snd_remove1_distinct:
  assumes "distinct (map snd ol)" "(k, n) \<in> set ol"
  shows "snd ` set (remove1 (k, n) ol) = snd ` set ol - {n}"
    and "distinct (map snd (remove1 (k, n) ol))"
proof -
  have d: "distinct ol" using assms(1) by (rule distinct_map [THEN iffD1, THEN conjunct1])
  have inj: "inj_on snd (set ol)" using assms(1) by (simp add: distinct_map)
  have "set (remove1 (k, n) ol) = set ol - {(k, n)}"
    using d by simp
  then have "snd ` set (remove1 (k, n) ol) = snd ` (set ol - {(k, n)})" by simp
  also have "\<dots> = snd ` set ol - snd ` {(k, n)}"
    using inj assms(2) by (intro inj_on_image_set_diff [of snd "set ol"]) auto
  finally show "snd ` set (remove1 (k, n) ol) = snd ` set ol - {n}" by simp
  have "inj_on snd (set (remove1 (k, n) ol))"
    using inj by (rule inj_on_subset) (rule set_remove1_subset)
  then show "distinct (map snd (remove1 (k, n) ol))"
    using d by (simp add: distinct_map)
qed

subsection \<open>One pass of the main loop\<close>

lemma init_costs_dom: "dom (init_costs gr) = set (concat (cells gr))"
  by (simp add: init_costs_def dom_map_of_conv_image_fst image_image)

lemma init_costs_val: "init_costs gr n = Some v \<Longrightarrow> v = \<infinity>"
  by (auto simp: init_costs_def dest!: map_of_SomeD)

lemma lpa_init_inv:
  assumes "lpa_init gr = Inr s"
  shows "state_inv s" "world s = gr" "run s"
proof -
  from assms obtain k gv where
    gv: "init_costs gr (start gr) = Some gv"
    and s: "s = \<lparr>world = gr, rhs_of = (init_costs gr)(start gr \<mapsto> 0), g_of = init_costs gr,
                 open_list = [(k, start gr)], topKey = k, run = True\<rparr>"
    by (auto simp: lpa_init_def Let_def calc_key_def split: option.splits sum.splits)
  from gv have inf: "gv = \<infinity>" by (rule init_costs_val)
  show "world s = gr" "run s" by (simp_all add: s)
  have "dom ((init_costs gr)(start gr \<mapsto> 0)) = dom (init_costs gr)"
    using gv by auto
  moreover have "\<forall>n. (n \<in> snd ` set [(k, start gr)])
      = (init_costs gr n \<noteq> ((init_costs gr)(start gr \<mapsto> 0)) n)"
    using gv inf by (auto simp: zero_enat_def)
  ultimately show "state_inv s"
    by (simp add: state_inv_def open_inv_def s)
qed

lemma settle_inv:
  assumes st: "settle s n = Inr s'"
    and dm: "dom (rhs_of s) = dom (g_of s)"
    and ds: "distinct (map snd (open_list s))"
    and nin: "n \<notin> snd ` set (open_list s)"
    and ot: "\<forall>m. m \<noteq> n \<longrightarrow> (m \<in> snd ` set (open_list s)) = (g_of s m \<noteq> rhs_of s m)"
    and inc: "g_of s n \<noteq> rhs_of s n"
    and r0: "rhs_of s (start (world s)) = Some 0"
  shows "state_inv s'" "world s' = world s" "topKey s' = topKey s" "run s' = run s"
proof -
  from st obtain gv rv where gv: "g_of s n = Some gv" and rv: "rhs_of s n = Some rv"
    by (auto simp: settle_def split: option.splits)
  have all: "state_inv s' \<and> world s' = world s \<and> topKey s' = topKey s \<and> run s' = run s"
  proof (cases "gv > rv")
    case True
    with st gv rv have s': "s' = s\<lparr>g_of := (g_of s)(n \<mapsto> rv)\<rparr>"
      by (simp add: settle_def)
    have "dom (rhs_of s) = dom ((g_of s)(n \<mapsto> rv))"
      using dm gv by auto
    moreover have "\<forall>m. (m \<in> snd ` set (open_list s)) = (((g_of s)(n \<mapsto> rv)) m \<noteq> rhs_of s m)"
      using ot nin rv by auto
    ultimately show ?thesis
      using ds r0 by (simp add: s' state_inv_def open_inv_def)
  next
    case False
    with st gv rv obtain rhs' ol' where
      uv: "update_vertex (world s) n (rhs_of s) ((g_of s)(n \<mapsto> \<infinity>)) (open_list s) = Inr (rhs', ol')"
      and s': "s' = s\<lparr>rhs_of := rhs', g_of := (g_of s)(n \<mapsto> \<infinity>), open_list := ol'\<rparr>"
      by (auto simp: settle_def Let_def split: sum.splits)
    have ns: "n \<noteq> start (world s)"
    proof
      assume "n = start (world s)"
      with r0 rv have "rv = 0" by simp
      with False have "gv = 0" by simp
      with \<open>rv = 0\<close> inc gv rv show False by simp
    qed
    have "dom (rhs_of s) = dom ((g_of s)(n \<mapsto> \<infinity>))"
      using dm gv by auto
    moreover have "\<forall>m. m \<noteq> n \<longrightarrow>
        (m \<in> snd ` set (open_list s)) = (((g_of s)(n \<mapsto> \<infinity>)) m \<noteq> rhs_of s m)"
      using ot by simp
    ultimately have "open_inv rhs' ((g_of s)(n \<mapsto> \<infinity>)) ol'"
      using update_vertex_open_inv [OF uv ns] ds by blast
    moreover have "rhs' (start (world s)) = Some 0"
      using update_vertex_rhs_start [OF uv] r0 by simp
    ultimately show ?thesis
      by (simp add: s' state_inv_def)
  qed
  then show "state_inv s'" "world s' = world s" "topKey s' = topKey s" "run s' = run s"
    by simp_all
qed

lemma update_neighbors_inv:
  "update_neighbors s ns = Inr s' \<Longrightarrow> state_inv s \<Longrightarrow>
   state_inv s' \<and> same_frame (world s) (world s') \<and> g_of s' = g_of s
     \<and> topKey s' = topKey s \<and> run s' = run s"
proof (induction ns arbitrary: s)
  case Nil
  then show ?case by simp
next
  case (Cons nb ns)
  define gr' where "gr' = (if \<not> is_start (world s) nb \<and> \<not> is_end (world s) nb
      \<and> \<not> is_checked (world s) nb then uncheck (world s) nb else world s)"
  from Cons.prems(1) obtain rhs' ol' where
    uv: "update_vertex gr' nb (rhs_of s) (g_of s) (open_list s) = Inr (rhs', ol')"
    and rest: "update_neighbors (s\<lparr>world := gr', rhs_of := rhs', open_list := ol'\<rparr>) ns = Inr s'"
    by (auto simp: Let_def gr'_def split: sum.splits)
  have fr: "same_frame (world s) gr'"
    by (simp add: gr'_def)
  then have st: "start gr' = start (world s)" by (simp add: same_frame_def)
  have "open_inv rhs' (g_of s) ol'"
    using update_vertex_open_inv_full [OF uv] Cons.prems(2) by (simp add: state_inv_def)
  moreover have "rhs' (start gr') = Some 0"
    using update_vertex_rhs_start [OF uv] Cons.prems(2) st by (simp add: state_inv_def)
  ultimately have "state_inv (s\<lparr>world := gr', rhs_of := rhs', open_list := ol'\<rparr>)"
    by (simp add: state_inv_def)
  from Cons.IH [OF rest this] fr show ?case
    by (auto intro: same_frame_trans)
qed

lemma finish_pass_inv:
  assumes "finish_pass rfuel s n = Some (Inr s')"
  shows "\<exists>gr5. s' = s\<lparr>world := gr5\<rparr> \<and> same_frame (world s) gr5"
proof -
  define gr4 where "gr4 = (if \<not> is_start (draw (world s)) n \<and> \<not> is_end (draw (world s)) n
      then node_check (draw (world s)) n else draw (world s))"
  have f4: "same_frame (world s) gr4"
    by (simp add: gr4_def same_frame_def node_check_def draw_def)
  have fin: "finish_pass rfuel s n =
      (if n = goal (world s)
       then (case reconstruct_path rfuel gr4 n (rhs_of s) of
               None \<Rightarrow> None
             | Some (Inl (e, gr5)) \<Rightarrow> Some (Inl e)
             | Some (Inr gr5) \<Rightarrow> Some (Inr (s\<lparr>world := gr5\<rparr>)))
       else Some (Inr (s\<lparr>world := gr4\<rparr>)))"
    by (simp add: finish_pass_def Let_def gr4_def node_check_def draw_def)
  show ?thesis
  proof (cases "n = goal (world s)")
    case True
    with assms fin obtain gr5 where
      rp: "reconstruct_path rfuel gr4 n (rhs_of s) = Some (Inr gr5)" and "s' = s\<lparr>world := gr5\<rparr>"
      by (auto split: option.splits sum.splits)
    moreover have "same_frame (world s) gr5"
      using f4 reconstruct_path_frame [OF rp] by (rule same_frame_trans)
    ultimately show ?thesis by blast
  next
    case False
    with assms fin have "s' = s\<lparr>world := gr4\<rparr>" by simp
    with f4 show ?thesis by blast
  qed
qed

lemma lpa_body_inv:
  assumes body: "lpa_body rfuel k s = Some (Inr s')"
    and inv: "state_inv s" and ne: "open_list s \<noteq> []"
  shows "state_inv s'" "same_frame (world s) (world s')" "run s' = run s"
proof -
  obtain tk n ol where pop: "heappop k (open_list s) = ((tk, n), ol)"
    by (metis prod.exhaust)
  from heappop_least [OF ne pop] have
    mem: "(tk, n) \<in> set (open_list s)" and ol: "ol = remove1 (tk, n) (open_list s)"
    by simp_all
  from inv have dm: "dom (rhs_of s) = dom (g_of s)"
    and ds: "distinct (map snd (open_list s))"
    and io: "\<forall>m. (m \<in> snd ` set (open_list s)) = (g_of s m \<noteq> rhs_of s m)"
    and r0: "rhs_of s (start (world s)) = Some 0"
    by (simp_all add: state_inv_def open_inv_def)
  have sn: "snd ` set ol = snd ` set (open_list s) - {n}" and dol: "distinct (map snd ol)"
    unfolding ol using snd_remove1_distinct [OF ds mem] by simp_all
  from body pop obtain s1 s2 where
    s1: "settle (s\<lparr>open_list := ol, topKey := tk\<rparr>) n = Inr s1"
    and s2: "update_neighbors s1 (neighbors (world s1) n) = Inr s2"
    and fp: "finish_pass rfuel s2 n = Some (Inr s')"
    by (auto simp: lpa_body_def split: sum.splits)
  have "n \<in> snd ` set (open_list s)" using mem by force
  with io have inc: "g_of s n \<noteq> rhs_of s n" by simp
  have i1: "state_inv s1" and w1: "world s1 = world s" and run1: "run s1 = run s"
    using settle_inv [OF s1] dm dol sn io inc r0 by simp_all
  from update_neighbors_inv [OF s2 i1] have
    i2: "state_inv s2" and f2: "same_frame (world s) (world s2)" and run2: "run s2 = run s"
    using w1 run1 by simp_all
  from finish_pass_inv [OF fp] obtain gr5 where
    s': "s' = s2\<lparr>world := gr5\<rparr>" and f5: "same_frame (world s2) gr5"
    by blast
  show "same_frame (world s) (world s')"
    using f2 f5 by (auto simp: s' intro: same_frame_trans)
  show "run s' = run s" using run2 by (simp add: s')
  have "start gr5 = start (world s2)"
    using f5 by (simp add: same_frame_def)
  then show "state_inv s'"
    using i2 by (simp add: s' state_inv_def)
qed

lemma lpa_step_continue:
  assumes "lpa_step rfuel poll tie i s = Some (Inr (Continue s'))" "state_inv s"
  shows "state_inv s'" "same_frame (world s) (world s')" "poll i True = Inr (run s')"
proof -
  from assms(1) have c: "loop_cond s = Inr True"
    by (auto simp: lpa_step_def split: sum.splits if_splits)
  then have r: "run s" by (auto simp: loop_cond_def split: sum.splits)
  from assms(1) c obtain b where b: "poll i (run s) = Inr b"
    and ne: "open_list (s\<lparr>run := b\<rparr>) \<noteq> []"
    and body: "lpa_body rfuel (tie i) (s\<lparr>run := b\<rparr>) = Some (Inr s')"
    by (auto simp: lpa_step_def Let_def split: sum.splits if_splits option.splits)
  have inv: "state_inv (s\<lparr>run := b\<rparr>)"
    using assms(2) by (simp add: state_inv_def)
  from lpa_body_inv [OF body inv ne] r b
  show "state_inv s'" "same_frame (world s) (world s')" "poll i True = Inr (run s')"
    by simp_all
qed

lemma lpa_step_exit:
  assumes "lpa_step rfuel poll tie i s = Some (Inr (Exit oc s'))"
  shows "rhs_of s' = rhs_of s" "g_of s' = g_of s" "open_list s' = open_list s"
    "world s' = world s" "topKey s' = topKey s"
  using assms
  by (auto simp: lpa_step_def Let_def split: sum.splits if_splits option.splits)

lemma lpa_at_inv:
  "lpa_at rfuel poll tie gr i = Some s \<Longrightarrow> state_inv s \<and> same_frame gr (world s)"
proof (induction i arbitrary: s)
  case 0
  then have "lpa_init gr = Inr s" by (auto split: sum.splits)
  from lpa_init_inv [OF this] show ?case by simp
next
  case (Suc i)
  from Suc.prems obtain s0 where
    s0: "lpa_at rfuel poll tie gr i = Some s0"
    and step: "lpa_step rfuel poll tie i s0 = Some (Inr (Continue s))"
    by (auto split: option.splits sum.splits step.splits)
  from Suc.IH [OF s0] have "state_inv s0" "same_frame gr (world s0)" by simp_all
  with lpa_step_continue [OF step] show ?case
    by (auto intro: same_frame_trans)
qed

lemma lpa_loop_exit:
  "lpa_loop fuel rfuel poll tie i s = Some (Inr (oc, s')) \<Longrightarrow>
   lpa_at rfuel poll tie gr i = Some s \<Longrightarrow>
   \<exists>j sj. lpa_at rfuel poll tie gr j = Some sj
     \<and> lpa_step rfuel poll tie j sj = Some (Inr (Exit oc s'))"
proof (induction fuel arbitrary: i s)
  case 0
  then show ?case by simp
next
  case (Suc fuel)
  show ?case
  proof (cases "lpa_step rfuel poll tie i s")
    case None
    with Suc.prems show ?thesis by simp
  next
    case (Some r)
    show ?thesis
    proof (cases r)
      case (Inl e)
      with Some Suc.prems show ?thesis by simp
    next
      case (Inr st)
      show ?thesis
      proof (cases st)
        case (Exit oc' s'')
        with Some Inr Suc.prems show ?thesis by auto
      next
        case (Continue s'')
        with Some Inr Suc.prems have
          "lpa_loop fuel rfuel poll tie (Suc i) s'' = Some (Inr (oc, s'))"
          "lpa_at rfuel poll tie gr (Suc i) = Some s''"
          by simp_all
        then show ?thesis by (rule Suc.IH)
      qed
    qed
  qed
qed

lemma lpa_star_exit:
  assumes "lpa_star fuel rfuel poll tie gr = Some (Inr (oc, s'))"
  shows "\<exists>j sj. lpa_at rfuel poll tie gr j = Some sj
     \<and> lpa_step rfuel poll tie j sj = Some (Inr (Exit oc s'))"
proof -
  from assms obtain s0 where i: "lpa_init gr = Inr s0"
    and l: "lpa_loop fuel rfuel poll tie 0 s0 = Some (Inr (oc, s'))"
    by (auto simp: lpa_star_def split: sum.splits)
  from i have "lpa_at rfuel poll tie gr 0 = Some s0" by simp
  with l show ?thesis by (rule lpa_loop_exit)
qed

lemmas engine_defs =
  lpa_star_def lpa_loop.simps lpa_at.simps lpa_init_def lpa_step_def lpa_body_def finish_pass_def
  settle_def loop_cond_def
  update_vertex_def calc_key_def manhattan_def heappop_def heappush_def heapify_def
  least_entries_def key_less_def counts_for_rhs_def init_costs_def
  is_checked_def is_start_def is_unchecked_def is_end_def
  uncheck_def node_check_def make_path_def draw_def get_checked_neighbors_def Let_def

lemma line2_converges:
  "\<exists>s. lpa_star 3 1 (\<lambda>i r. Inr r) (\<lambda>i. 0) line2 = Some (Inr (Converged, s))"
  by (simp add: engine_defs line2_def zero_enat_def one_enat_def numeral_3_eq_3
      reconstruct_path_Suc reconstruct_path_start)

text \<open>
  C6: throughout every run of \<open>lpa_star\<close>, whenever the loop condition is evaluated (at
  the start of each pass and at the exit), a node is in the open list if and only if its
  \<open>g\<close> and \<open>rhs\<close> differ, and the open list has at most one entry per node.
\<close>

theorem open_list_invariant:
  "lpa_at rfuel poll tie gr i = Some s \<Longrightarrow>
   (\<forall>n. (n \<in> snd ` set (open_list s)) = (g_of s n \<noteq> rhs_of s n))
     \<and> distinct (map snd (open_list s)) \<and> dom (g_of s) = dom (rhs_of s)"
  using lpa_at_inv [of rfuel poll tie gr i s] by (simp add: state_inv_def open_inv_def)

theorem open_list_invariant_witness:
  "\<exists>s. lpa_at 0 (\<lambda>i r. Inr r) (\<lambda>i. 0) line2 (Suc 0) = Some s
     \<and> snd ` set (open_list s) = {1} \<and> g_of s 1 \<noteq> rhs_of s 1 \<and> g_of s 0 = rhs_of s 0
     \<and> distinct (map snd (open_list s))"
proof -
  obtain s where s: "lpa_at 0 (\<lambda>i r. Inr r) (\<lambda>i. 0) line2 (Suc 0) = Some s"
    and o: "snd ` set (open_list s) = {1}"
    by (simp add: engine_defs line2_def zero_enat_def one_enat_def)
  from open_list_invariant [OF s] o show ?thesis
    using s by auto
qed

lemma settle_rhs_start:
  assumes "settle s n = Inr s'"
  shows "rhs_of s' (start (world s)) = rhs_of s (start (world s))" "world s' = world s"
proof -
  from assms obtain gv rv where gv: "g_of s n = Some gv" and rv: "rhs_of s n = Some rv"
    by (auto simp: settle_def split: option.splits)
  have "rhs_of s' (start (world s)) = rhs_of s (start (world s)) \<and> world s' = world s"
  proof (cases "gv > rv")
    case True
    with assms gv rv show ?thesis by (auto simp: settle_def)
  next
    case False
    with assms gv rv obtain rhs' ol' where
      uv: "update_vertex (world s) n (rhs_of s) ((g_of s)(n \<mapsto> \<infinity>)) (open_list s) = Inr (rhs', ol')"
      and s': "s' = s\<lparr>rhs_of := rhs', g_of := (g_of s)(n \<mapsto> \<infinity>), open_list := ol'\<rparr>"
      by (auto simp: settle_def Let_def split: sum.splits)
    from update_vertex_rhs_start [OF uv] show ?thesis by (simp add: s')
  qed
  then show "rhs_of s' (start (world s)) = rhs_of s (start (world s))" "world s' = world s"
    by simp_all
qed

lemma update_neighbors_rhs_start:
  "update_neighbors s ns = Inr s' \<Longrightarrow>
   rhs_of s' (start (world s)) = rhs_of s (start (world s)) \<and> same_frame (world s) (world s')"
proof (induction ns arbitrary: s)
  case Nil
  then show ?case by simp
next
  case (Cons nb ns)
  define gr' where "gr' = (if \<not> is_start (world s) nb \<and> \<not> is_end (world s) nb
      \<and> \<not> is_checked (world s) nb then uncheck (world s) nb else world s)"
  from Cons.prems(1) obtain rhs' ol' where
    uv: "update_vertex gr' nb (rhs_of s) (g_of s) (open_list s) = Inr (rhs', ol')"
    and rest: "update_neighbors (s\<lparr>world := gr', rhs_of := rhs', open_list := ol'\<rparr>) ns = Inr s'"
    by (auto simp: Let_def gr'_def split: sum.splits)
  have fr: "same_frame (world s) gr'"
    by (simp add: gr'_def)
  then have st: "start gr' = start (world s)" by (simp add: same_frame_def)
  from Cons.IH [OF rest] update_vertex_rhs_start [OF uv] fr st show ?case
    by (auto intro: same_frame_trans)
qed

lemma lpa_at_frame: "lpa_at rfuel poll tie gr i = Some s \<Longrightarrow> start (world s) = start gr"
  using lpa_at_inv [of rfuel poll tie gr i s] by (simp add: same_frame_def)

text \<open>
  C8: \<open>rhs[start]\<close> is 0 whenever the loop condition is evaluated and when
  \<open>lpa_star\<close> returns, and none of the operations that write \<open>rhs\<close> (the vertex
  update, the handling of the dequeued node, the loop over its neighbors) changes
  \<open>rhs[start]\<close>.
\<close>

theorem rhs_start_zero:
  "(lpa_at rfuel poll tie gr i = Some s \<longrightarrow> rhs_of s (start gr) = Some 0) \<and>
   (lpa_star fuel rfuel poll tie gr = Some (Inr (oc, s')) \<longrightarrow> rhs_of s' (start gr) = Some 0) \<and>
   (update_vertex gr n rhs g ol = Inr (rhs', ol') \<longrightarrow> rhs' (start gr) = rhs (start gr)) \<and>
   (settle s1 n = Inr s2 \<longrightarrow> rhs_of s2 (start (world s1)) = rhs_of s1 (start (world s1))) \<and>
   (update_neighbors s1 ns = Inr s3 \<longrightarrow>
      rhs_of s3 (start (world s1)) = rhs_of s1 (start (world s1)))"
proof (intro conjI impI)
  assume a: "lpa_at rfuel poll tie gr i = Some s"
  from lpa_at_inv [OF a] lpa_at_frame [OF a] show "rhs_of s (start gr) = Some 0"
    by (simp add: state_inv_def)
next
  assume "lpa_star fuel rfuel poll tie gr = Some (Inr (oc, s'))"
  from lpa_star_exit [OF this] obtain j sj where
    a: "lpa_at rfuel poll tie gr j = Some sj"
    and e: "lpa_step rfuel poll tie j sj = Some (Inr (Exit oc s'))" by blast
  from lpa_at_inv [OF a] lpa_at_frame [OF a] have "rhs_of sj (start gr) = Some 0"
    by (simp add: state_inv_def)
  with lpa_step_exit(1) [OF e] show "rhs_of s' (start gr) = Some 0" by simp
next
  assume "update_vertex gr n rhs g ol = Inr (rhs', ol')"
  then show "rhs' (start gr) = rhs (start gr)" by (rule update_vertex_rhs_start)
next
  assume "settle s1 n = Inr s2"
  then show "rhs_of s2 (start (world s1)) = rhs_of s1 (start (world s1))"
    by (rule settle_rhs_start)
next
  assume "update_neighbors s1 ns = Inr s3"
  from update_neighbors_rhs_start [OF this]
  show "rhs_of s3 (start (world s1)) = rhs_of s1 (start (world s1))" by simp
qed

theorem rhs_start_zero_witness:
  "\<exists>s s'. lpa_at 1 (\<lambda>i r. Inr r) (\<lambda>i. 0) line2 (Suc 0) = Some s \<and> rhs_of s (start line2) = Some 0
     \<and> lpa_star 3 1 (\<lambda>i r. Inr r) (\<lambda>i. 0) line2 = Some (Inr (Converged, s'))
     \<and> rhs_of s' (start line2) = Some 0"
proof -
  obtain s where s: "lpa_at 1 (\<lambda>i r. Inr r) (\<lambda>i. 0) line2 (Suc 0) = Some s"
    by (simp add: engine_defs line2_def zero_enat_def one_enat_def)
  from line2_converges obtain s' where
    s': "lpa_star 3 1 (\<lambda>i r. Inr r) (\<lambda>i. 0) line2 = Some (Inr (Converged, s'))" by blast
  from rhs_start_zero [of 1 "\<lambda>i r. Inr r" "\<lambda>i. 0" line2 "Suc 0" s 3 Converged s'] s s'
  show ?thesis by blast
qed






subsection \<open>The open list at the exit, on a symmetric grid\<close>

lemma counts_live: "counts_for_rhs gr w \<Longrightarrow> live gr w"
  by (auto simp: counts_for_rhs_def live_def is_checked_def is_start_def is_unchecked_def
      is_end_def)

lemma not_counts_cases:
  "\<not> counts_for_rhs gr w \<Longrightarrow> state gr w \<noteq> Start \<Longrightarrow> state gr w \<noteq> End \<Longrightarrow> \<not> live gr w"
  by (cases "state gr w")
     (auto simp: counts_for_rhs_def live_def is_checked_def is_start_def is_unchecked_def
      is_end_def)

lemma advance_refl [simp]: "advance gr gr"
  by (simp add: advance_def)

lemma advance_trans: "advance a b \<Longrightarrow> advance b c \<Longrightarrow> advance a c"
  unfolding advance_def
  by (intro conjI allI) (blast intro: same_frame_trans, metis tag.distinct)

lemma advance_frame: "advance gr gr' \<Longrightarrow> same_frame gr gr'"
  by (simp add: advance_def)

lemma advance_uncheck:
  "\<not> is_start gr w \<Longrightarrow> \<not> is_end gr w \<Longrightarrow> advance gr (uncheck gr w)"
  by (simp add: advance_def is_start_def is_end_def uncheck_def same_frame_def)

lemma advance_node_check:
  "\<not> is_start gr w \<Longrightarrow> \<not> is_end gr w \<Longrightarrow> advance gr (node_check gr w)"
  by (simp add: advance_def is_start_def is_end_def node_check_def same_frame_def)

lemma advance_draw: "advance gr (draw gr)"
  by (simp add: advance_def draw_def same_frame_def)

lemma advance_live: "advance gr gr' \<Longrightarrow> live gr w \<Longrightarrow> live gr' w"
  by (auto simp: advance_def live_def) (metis tag.distinct)+

lemma advance_counts:
  assumes "advance gr gr'" "counts_for_rhs gr w"
  shows "counts_for_rhs gr' w"
proof -
  from assms(1) have bc: "been_checked gr' = been_checked gr"
    by (simp add: advance_def same_frame_def)
  from assms(1) have "state gr' w = state gr w \<or> state gr' w = Unchecked \<or> state gr' w = Checked"
    by (auto simp: advance_def)
  with assms(2) bc show ?thesis
    by (auto simp: counts_for_rhs_def is_checked_def is_start_def is_unchecked_def is_end_def)
qed

lemma advance_wv:
  assumes "advance gr gr'" "quiet gr g"
  shows "wv gr' g w = wv gr g w"
proof (cases "counts_for_rhs gr w")
  case True
  with advance_counts [OF assms(1) True] show ?thesis by (simp add: wv_def)
next
  case False
  show ?thesis
  proof (cases "state gr' w = state gr w")
    case True
    moreover from assms(1) have "been_checked gr' = been_checked gr"
      by (simp add: advance_def same_frame_def)
    ultimately have "counts_for_rhs gr' w = counts_for_rhs gr w"
      by (simp add: counts_for_rhs_def is_checked_def is_start_def is_unchecked_def is_end_def)
    then show ?thesis by (simp add: wv_def)
  next
    case ne: False
    with assms(1) have "state gr w \<noteq> Start" "state gr w \<noteq> End"
      by (auto simp: advance_def)
    with False have "\<not> live gr w" by (rule not_counts_cases)
    with assms(2) have "gval g w = \<infinity>" by (simp add: quiet_def)
    with False show ?thesis by (simp add: wv_def)
  qed
qed

lemma advance_quiet:
  assumes "advance gr gr'" "quiet gr g"
  shows "quiet gr' g"
  unfolding quiet_def
proof (intro allI impI)
  fix w
  assume "\<not> live gr' w"
  with advance_live [OF assms(1)] have "\<not> live gr w" by blast
  with assms(2) show "gval g w = \<infinity>" by (simp add: quiet_def)
qed

lemma lookahead_cong:
  "(\<And>w. w \<in> set ns \<Longrightarrow> wv gr' g' w = wv gr g w) \<Longrightarrow>
   lookahead gr' g' ns r = lookahead gr g ns r"
  by (induction ns arbitrary: r) simp_all

lemma advance_lookahead:
  "advance gr gr' \<Longrightarrow> quiet gr g \<Longrightarrow> lookahead gr' g ns r = lookahead gr g ns r"
  by (rule lookahead_cong) (rule advance_wv)

lemma frame_lookahead_neighbors:
  "advance gr gr' \<Longrightarrow> quiet gr g \<Longrightarrow>
   lookahead gr' g (neighbors gr' m) r = lookahead gr g (neighbors gr m) r"
  using advance_lookahead [of gr gr' g "neighbors gr m" r]
  by (simp add: advance_def same_frame_def)

lemma scan_rhs_lookahead:
  "scan_rhs gr g ns r = Inr x \<Longrightarrow> x = lookahead gr g ns r"
proof (induction ns arbitrary: r)
  case Nil
  then show ?case by simp
next
  case (Cons w ws)
  show ?case
  proof (cases "counts_for_rhs gr w")
    case True
    with Cons.prems obtain gv where gv: "g w = Some gv"
      and "scan_rhs gr g ws (min r (gv + 1)) = Inr x"
      by (auto split: option.splits)
    from Cons.IH [OF this(2)] True gv show ?thesis
      by (simp add: wv_def gval_def)
  next
    case False
    with Cons.prems have "scan_rhs gr g ws r = Inr x" by simp
    from Cons.IH [OF this] False show ?thesis
      by (simp add: wv_def)
  qed
qed

lemma wv_upd_other: "w \<noteq> n \<Longrightarrow> wv gr (g(n \<mapsto> v)) w = wv gr g w"
  by (simp add: wv_def gval_def)

lemma lookahead_upd_notin:
  assumes "n \<notin> set ns"
  shows "lookahead gr (g(n \<mapsto> v)) ns r = lookahead gr g ns r"
proof (rule lookahead_cong)
  fix w
  assume "w \<in> set ns"
  with assms have "w \<noteq> n" by blast
  then show "wv gr (g(n \<mapsto> v)) w = wv gr g w" by (rule wv_upd_other)
qed

lemma lookahead_min: "lookahead gr g ns (min r c) = min (lookahead gr g ns r) c"
proof (induction ns arbitrary: r)
  case Nil
  then show ?case by simp
next
  case (Cons w ws)
  have "min (min r c) (wv gr g w) = min (min r (wv gr g w)) c"
    by (simp add: min.assoc min.commute min.left_commute)
  then show ?case using Cons.IH [of "min r (wv gr g w)"] by simp
qed

lemma lookahead_upd_inf:
  assumes "gval g0 e = \<infinity>"
  shows "lookahead gr (g0(e \<mapsto> c)) ns r =
     min (lookahead gr g0 ns r) (if e \<in> set ns \<and> counts_for_rhs gr e then c + 1 else \<infinity>)"
proof -
  define g1 where "g1 = g0(e \<mapsto> c)"
  define d where "d = (if counts_for_rhs gr e then c + 1 else \<infinity>)"
  have old: "wv gr g0 e = \<infinity>"
    using assms by (simp add: wv_def)
  have new: "wv gr g1 e = d"
    by (simp add: wv_def gval_def g1_def d_def)
  have other: "w \<noteq> e \<Longrightarrow> wv gr g1 w = wv gr g0 w" for w
    unfolding g1_def by (rule wv_upd_other)
  have main: "lookahead gr g1 ns r = min (lookahead gr g0 ns r) (if e \<in> set ns then d else \<infinity>)"
  proof (induction ns arbitrary: r)
    case Nil
    then show ?case by simp
  next
    case (Cons w ws)
    show ?case
    proof (cases "w = e")
      case True
      have "lookahead gr g1 (w # ws) r = lookahead gr g1 ws (min r d)"
        using True new by simp
      also have "\<dots> = min (lookahead gr g0 ws (min r d)) (if e \<in> set ws then d else \<infinity>)"
        by (rule Cons.IH)
      also have "\<dots> = min (min (lookahead gr g0 ws r) d) (if e \<in> set ws then d else \<infinity>)"
        by (simp add: lookahead_min)
      also have "\<dots> = min (lookahead gr g0 ws r) d"
        by (simp add: min.assoc)
      also have "lookahead gr g0 ws r = lookahead gr g0 (w # ws) r"
        using True old by simp
      finally show ?thesis
        using True by simp
    next
      case False
      then have "lookahead gr g1 (w # ws) r = lookahead gr g1 ws (min r (wv gr g0 w))"
        using other by simp
      also have "\<dots> = min (lookahead gr g0 ws (min r (wv gr g0 w)))
          (if e \<in> set ws then d else \<infinity>)"
        by (rule Cons.IH)
      finally show ?thesis
        using False by simp
    qed
  qed
  have "(if e \<in> set ns then d else \<infinity>)
      = (if e \<in> set ns \<and> counts_for_rhs gr e then c + 1 else \<infinity>)"
    by (simp add: d_def)
  with main show ?thesis unfolding g1_def by simp
qed

lemma calc_key_frame:
  assumes "same_frame gr gr'"
  shows "calc_key gr' (goal gr') n g rhs = calc_key gr (goal gr) n g rhs"
proof -
  have "manhattan gr' n (goal gr') = manhattan gr n (goal gr)"
    using assms by (simp add: manhattan_def same_frame_def)
  then show ?thesis by (simp add: calc_key_def split: option.splits)
qed

lemma calc_key_local:
  "g' n = g n \<Longrightarrow> rhs' n = rhs n \<Longrightarrow> calc_key gr e n g' rhs' = calc_key gr e n g rhs"
  by (simp add: calc_key_def split: option.splits)

lemma advance_start:
  assumes "advance gr gr'" "is_start gr (start gr)"
  shows "is_start gr' (start gr')"
proof -
  from assms(1) have "start gr' = start gr" by (simp add: advance_def same_frame_def)
  moreover from assms(1) have "state gr' (start gr) = state gr (start gr)
      \<or> state gr (start gr) \<noteq> Start"
    unfolding advance_def by blast
  with assms(2) have "state gr' (start gr) = Start"
    by (simp add: is_start_def)
  ultimately show ?thesis by (simp add: is_start_def)
qed

lemma pass_inv_advance:
  assumes adv: "advance (world s) gr'" and inv: "pass_inv s U"
  shows "pass_inv (s\<lparr>world := gr'\<rparr>) U"
proof -
  from adv have fr: "same_frame (world s) gr'" by (rule advance_frame)
  then have st: "start gr' = start (world s)" and nb: "neighbors gr' = neighbors (world s)"
    by (simp_all add: same_frame_def)
  from inv have si: "state_inv s"
    and kf: "keys_fresh (world s) (g_of s) (rhs_of s) (open_list s)"
    and rf: "rhs_fresh (world s) (g_of s) (rhs_of s) U"
    and q: "quiet (world s) (g_of s)"
    and lv: "\<forall>e \<in> set (open_list s). live (world s) (snd e)"
    and ss: "is_start (world s) (start (world s))"
    unfolding pass_inv_def by blast+
  have 1: "state_inv (s\<lparr>world := gr'\<rparr>)"
    using si st by (simp add: state_inv_def)
  have 2: "keys_fresh gr' (g_of s) (rhs_of s) (open_list s)"
    unfolding keys_fresh_def
  proof
    fix e
    assume "e \<in> set (open_list s)"
    with kf have "calc_key (world s) (goal (world s)) (snd e) (g_of s) (rhs_of s) = Inr (fst e)"
      unfolding keys_fresh_def by blast
    then show "calc_key gr' (goal gr') (snd e) (g_of s) (rhs_of s) = Inr (fst e)"
      by (simp only: calc_key_frame [OF fr])
  qed
  have 3: "rhs_fresh gr' (g_of s) (rhs_of s) U"
    unfolding rhs_fresh_def
  proof (intro ballI impI)
    fix m
    assume m: "m \<in> dom (g_of s)" "m \<noteq> start gr'" "m \<notin> U"
    with rf st have "rhs_of s m = Some (lookahead (world s) (g_of s) (neighbors (world s) m) \<infinity>)"
      unfolding rhs_fresh_def by simp
    then show "rhs_of s m = Some (lookahead gr' (g_of s) (neighbors gr' m) \<infinity>)"
      by (simp only: frame_lookahead_neighbors [OF adv q])
  qed
  have 4: "quiet gr' (g_of s)"
    using adv q by (rule advance_quiet)
  have 5: "\<forall>e \<in> set (open_list s). live gr' (snd e)"
    using lv advance_live [OF adv] by blast
  have 6: "is_start gr' (start gr')"
    using adv ss by (rule advance_start)
  show ?thesis
    unfolding pass_inv_def using 1 2 3 4 5 6 by simp
qed

lemma update_vertex_lookahead:
  assumes "update_vertex gr n rhs g ol = Inr (rhs', ol')" "n \<noteq> start gr"
  obtains gv where
    "g n = Some gv" "rhs' = rhs(n \<mapsto> lookahead gr g (neighbors gr n) \<infinity>)"
    "gv = lookahead gr g (neighbors gr n) \<infinity> \<Longrightarrow> ol' = filter (\<lambda>(k, v). v \<noteq> n) ol"
    "gv \<noteq> lookahead gr g (neighbors gr n) \<infinity> \<Longrightarrow>
       \<exists>k. calc_key gr (goal gr) n g rhs' = Inr k \<and>
           ol' = filter (\<lambda>(k, v). v \<noteq> n) ol @ [(k, n)]"
proof -
  from update_vertex_cases [OF assms] obtain r gv where
    sc: "scan_rhs gr g (neighbors gr n) \<infinity> = Inr r" and gv: "g n = Some gv"
    and r': "rhs' = rhs(n \<mapsto> r)"
    and eq: "gv = r \<Longrightarrow> ol' = filter (\<lambda>(k, v). v \<noteq> n) ol"
    and ne: "gv \<noteq> r \<Longrightarrow> \<exists>k. calc_key gr (goal gr) n g rhs' = Inr k \<and>
        ol' = filter (\<lambda>(k, v). v \<noteq> n) ol @ [(k, n)]"
    by metis
  from scan_rhs_lookahead [OF sc] have "r = lookahead gr g (neighbors gr n) \<infinity>" .
  with gv r' eq ne that show ?thesis by blast
qed

lemma update_vertex_entries:
  assumes "update_vertex gr n rhs g ol = Inr (rhs', ol')" "e \<in> set ol'"
  shows "(e \<in> set ol \<and> rhs' (snd e) = rhs (snd e))
       \<or> (snd e = n \<and> calc_key gr (goal gr) n g rhs' = Inr (fst e))"
proof (cases "n = start gr")
  case True
  with assms show ?thesis by (simp add: update_vertex_def)
next
  case False
  from update_vertex_lookahead [OF assms(1) False] obtain gv where
    r': "rhs' = rhs(n \<mapsto> lookahead gr g (neighbors gr n) \<infinity>)"
    and eq: "gv = lookahead gr g (neighbors gr n) \<infinity> \<Longrightarrow> ol' = filter (\<lambda>(k, v). v \<noteq> n) ol"
    and ne: "gv \<noteq> lookahead gr g (neighbors gr n) \<infinity> \<Longrightarrow>
       \<exists>k. calc_key gr (goal gr) n g rhs' = Inr k \<and>
           ol' = filter (\<lambda>(k, v). v \<noteq> n) ol @ [(k, n)]"
    by metis
  show ?thesis
  proof (cases "gv = lookahead gr g (neighbors gr n) \<infinity>")
    case True
    from eq [OF True] assms(2) r' show ?thesis by auto
  next
    case False
    from ne [OF False] obtain k where
      "calc_key gr (goal gr) n g rhs' = Inr k" "ol' = filter (\<lambda>(k, v). v \<noteq> n) ol @ [(k, n)]"
      by blast
    with assms(2) r' show ?thesis by auto
  qed
qed

lemma update_vertex_pass:
  assumes uv: "update_vertex (world s) nb (rhs_of s) (g_of s) (open_list s) = Inr (rhs', ol')"
    and inv: "pass_inv s U" and lv: "live (world s) nb"
  shows "pass_inv (s\<lparr>rhs_of := rhs', open_list := ol'\<rparr>) (U - {nb})"
proof (cases "nb = start (world s)")
  case True
  with uv have "rhs' = rhs_of s" "ol' = open_list s" by (simp_all add: update_vertex_def)
  with inv True show ?thesis by (simp add: pass_inv_def rhs_fresh_def state_inv_def)
next
  case False
  from update_vertex_lookahead [OF uv False] obtain gv where
    r': "rhs' = (rhs_of s)(nb \<mapsto> lookahead (world s) (g_of s) (neighbors (world s) nb) \<infinity>)"
    by metis
  have "open_inv rhs' (g_of s) ol'"
    using update_vertex_open_inv_full [OF uv] inv by (simp add: pass_inv_def state_inv_def)
  moreover have "rhs' (start (world s)) = Some 0"
    using update_vertex_rhs_start [OF uv] inv by (simp add: pass_inv_def state_inv_def)
  ultimately have "state_inv (s\<lparr>rhs_of := rhs', open_list := ol'\<rparr>)"
    by (simp add: state_inv_def)
  moreover have "keys_fresh (world s) (g_of s) rhs' ol'"
    unfolding keys_fresh_def
  proof
    fix e
    assume "e \<in> set ol'"
    from update_vertex_entries [OF uv this] show
      "calc_key (world s) (goal (world s)) (snd e) (g_of s) rhs' = Inr (fst e)"
    proof
      assume a: "e \<in> set (open_list s) \<and> rhs' (snd e) = rhs_of s (snd e)"
      with inv have "calc_key (world s) (goal (world s)) (snd e) (g_of s) (rhs_of s) = Inr (fst e)"
        by (simp add: pass_inv_def keys_fresh_def)
      moreover have "calc_key (world s) (goal (world s)) (snd e) (g_of s) rhs'
          = calc_key (world s) (goal (world s)) (snd e) (g_of s) (rhs_of s)"
        using a by (intro calc_key_local) simp_all
      ultimately show ?thesis by simp
    next
      assume "snd e = nb \<and> calc_key (world s) (goal (world s)) nb (g_of s) rhs' = Inr (fst e)"
      then show ?thesis by simp
    qed
  qed
  moreover have "rhs_fresh (world s) (g_of s) rhs' (U - {nb})"
    using inv r' by (auto simp: pass_inv_def rhs_fresh_def)
  moreover have "\<forall>e \<in> set ol'. live (world s) (snd e)"
  proof
    fix e
    assume "e \<in> set ol'"
    from update_vertex_entries [OF uv this] inv lv show "live (world s) (snd e)"
      by (auto simp: pass_inv_def)
  qed
  ultimately show ?thesis
    using inv by (simp add: pass_inv_def)
qed

lemma update_neighbors_pass:
  "update_neighbors s ns = Inr s' \<Longrightarrow> pass_inv s U \<Longrightarrow> U \<subseteq> set ns \<Longrightarrow>
   pass_inv s' {} \<and> advance (world s) (world s') \<and> g_of s' = g_of s
     \<and> topKey s' = topKey s \<and> run s' = run s"
proof (induction ns arbitrary: s U)
  case Nil
  then show ?case by simp
next
  case (Cons nb ns)
  define gr' where "gr' = (if \<not> is_start (world s) nb \<and> \<not> is_end (world s) nb
      \<and> \<not> is_checked (world s) nb then uncheck (world s) nb else world s)"
  from Cons.prems(1) obtain rhs' ol' where
    uv: "update_vertex gr' nb (rhs_of s) (g_of s) (open_list s) = Inr (rhs', ol')"
    and rest: "update_neighbors (s\<lparr>world := gr', rhs_of := rhs', open_list := ol'\<rparr>) ns = Inr s'"
    by (auto simp: Let_def gr'_def split: sum.splits)
  have adv: "advance (world s) gr'"
    by (simp add: gr'_def advance_uncheck)
  have lv: "live gr' nb"
    by (auto simp: gr'_def live_def uncheck_def is_start_def is_end_def is_checked_def)
  have p1: "pass_inv (s\<lparr>world := gr'\<rparr>) U"
    using adv Cons.prems(2) by (rule pass_inv_advance)
  have "pass_inv (s\<lparr>world := gr'\<rparr>\<lparr>rhs_of := rhs', open_list := ol'\<rparr>) (U - {nb})"
    using uv p1 lv by (intro update_vertex_pass) simp_all
  then have p2: "pass_inv (s\<lparr>world := gr', rhs_of := rhs', open_list := ol'\<rparr>) (U - {nb})"
    by simp
  have "U - {nb} \<subseteq> set ns" using Cons.prems(3) by auto
  from Cons.IH [OF rest p2 this] adv show ?case
    by (auto intro: advance_trans)
qed

lemma rhs_fresh_mono: "rhs_fresh gr g rhs U \<Longrightarrow> U \<subseteq> V \<Longrightarrow> rhs_fresh gr g rhs V"
  unfolding rhs_fresh_def by blast

lemma update_vertex_keys:
  assumes uv: "update_vertex gr n rhs g ol = Inr (rhs', ol')"
    and kf: "keys_fresh gr g rhs ol"
  shows "keys_fresh gr g rhs' ol'"
  unfolding keys_fresh_def
proof
  fix e
  assume "e \<in> set ol'"
  from update_vertex_entries [OF uv this]
  show "calc_key gr (goal gr) (snd e) g rhs' = Inr (fst e)"
  proof
    assume a: "e \<in> set ol \<and> rhs' (snd e) = rhs (snd e)"
    with kf have "calc_key gr (goal gr) (snd e) g rhs = Inr (fst e)"
      unfolding keys_fresh_def by blast
    moreover have "calc_key gr (goal gr) (snd e) g rhs' = calc_key gr (goal gr) (snd e) g rhs"
      using a by (intro calc_key_local) simp_all
    ultimately show ?thesis by simp
  next
    assume "snd e = n \<and> calc_key gr (goal gr) n g rhs' = Inr (fst e)"
    then show ?thesis by simp
  qed
qed

lemma update_vertex_rhs_fresh:
  assumes uv: "update_vertex gr n rhs g ol = Inr (rhs', ol')"
    and rf: "rhs_fresh gr g rhs U"
  shows "rhs_fresh gr g rhs' (U - {n})"
proof (cases "n = start gr")
  case True
  with uv have "rhs' = rhs" by (simp add: update_vertex_def)
  with rf True show ?thesis unfolding rhs_fresh_def by auto
next
  case False
  from update_vertex_lookahead [OF uv False] obtain gv where
    r': "rhs' = rhs(n \<mapsto> lookahead gr g (neighbors gr n) \<infinity>)"
    by metis
  show ?thesis
    unfolding rhs_fresh_def
  proof (intro ballI impI)
    fix m
    assume m: "m \<in> dom g" "m \<noteq> start gr" "m \<notin> U - {n}"
    show "rhs' m = Some (lookahead gr g (neighbors gr m) \<infinity>)"
    proof (cases "m = n")
      case True
      then show ?thesis by (simp add: r')
    next
      case False
      with m have "m \<notin> U" by simp
      with rf m have "rhs m = Some (lookahead gr g (neighbors gr m) \<infinity>)"
        unfolding rhs_fresh_def by blast
      with False show ?thesis by (simp add: r')
    qed
  qed
qed

lemma update_vertex_live:
  assumes uv: "update_vertex gr n rhs g ol = Inr (rhs', ol')"
    and lv: "\<forall>e \<in> set ol. live gr (snd e)" and ln: "live gr n"
  shows "\<forall>e \<in> set ol'. live gr (snd e)"
proof
  fix e
  assume "e \<in> set ol'"
  from update_vertex_entries [OF uv this] lv ln show "live gr (snd e)" by auto
qed

lemma key_snd_finite:
  assumes "calc_key gr e n g rhs = Inr k" "g n \<noteq> rhs n"
  shows "snd k \<noteq> \<infinity>"
proof -
  from assms(1) obtain gv rv where *: "g n = Some gv" "rhs n = Some rv" "snd k = min gv rv"
    by (auto simp: calc_key_def split: option.splits)
  show ?thesis
  proof
    assume "snd k = \<infinity>"
    with *(3) have "gv = \<infinity>" "rv = \<infinity>" by (simp_all add: min_def split: if_splits)
    with * assms(2) show False by simp
  qed
qed

lemma settle_pass:
  assumes inv: "pass_inv s {}" and mem: "(tk, n) \<in> set (open_list s)"
    and st: "settle (s\<lparr>open_list := remove1 (tk, n) (open_list s), topKey := tk\<rparr>) n = Inr s1"
  shows "pass_inv s1 {m. n \<in> set (neighbors (world s) m)}"
    and "world s1 = world s" and "topKey s1 = tk" and "run s1 = run s"
    and "\<forall>m. m \<noteq> n \<longrightarrow> g_of s1 m = g_of s m"
proof -
  define sp where "sp = s\<lparr>open_list := remove1 (tk, n) (open_list s), topKey := tk\<rparr>"
  define U where "U = {m. n \<in> set (neighbors (world s) m)}"
  from inv have si: "state_inv s"
    and kf: "keys_fresh (world s) (g_of s) (rhs_of s) (open_list s)"
    and rf: "rhs_fresh (world s) (g_of s) (rhs_of s) {}"
    and q: "quiet (world s) (g_of s)"
    and lv: "\<forall>e \<in> set (open_list s). live (world s) (snd e)"
    and ss: "is_start (world s) (start (world s))"
    unfolding pass_inv_def by blast+
  from si have dm: "dom (rhs_of s) = dom (g_of s)"
    and ds: "distinct (map snd (open_list s))"
    and io: "\<forall>m. (m \<in> snd ` set (open_list s)) = (g_of s m \<noteq> rhs_of s m)"
    and r0: "rhs_of s (start (world s)) = Some 0"
    by (simp_all add: state_inv_def open_inv_def)
  have sn: "snd ` set (open_list sp) = snd ` set (open_list s) - {n}"
    and dol: "distinct (map snd (open_list sp))"
    using snd_remove1_distinct [OF ds mem] by (simp_all add: sp_def)
  have "n \<in> snd ` set (open_list s)" using mem by force
  with io have inc: "g_of s n \<noteq> rhs_of s n" by simp
  from mem lv have ln: "live (world s) n" by force
  have st': "settle sp n = Inr s1" using st by (simp add: sp_def)
  have si1: "state_inv s1" and w1: "world s1 = world s" and t1: "topKey s1 = tk"
    and run1: "run s1 = run s"
    using settle_inv [OF st'] dm dol sn io inc r0 by (simp_all add: sp_def)
  from st' obtain gv rv where gv: "g_of s n = Some gv" and rv: "rhs_of s n = Some rv"
    by (auto simp: settle_def sp_def split: option.splits)
  have sub: "set (open_list sp) \<subseteq> set (open_list s)"
    by (simp add: sp_def set_remove1_subset)
  have nn: "\<forall>e \<in> set (open_list sp). snd e \<noteq> n"
    using sn by auto
  have rest: "keys_fresh (world s) (g_of s1) (rhs_of s1) (open_list s1)
      \<and> rhs_fresh (world s) (g_of s1) (rhs_of s1) U \<and> quiet (world s) (g_of s1)
      \<and> (\<forall>e \<in> set (open_list s1). live (world s) (snd e))
      \<and> (\<forall>m. m \<noteq> n \<longrightarrow> g_of s1 m = g_of s m)"
  proof -
    have step: "keys_fresh (world s) ((g_of s)(n \<mapsto> v)) (rhs_of s) (open_list sp)
      \<and> rhs_fresh (world s) ((g_of s)(n \<mapsto> v)) (rhs_of s) (insert n U)" for v
    proof
      show "keys_fresh (world s) ((g_of s)(n \<mapsto> v)) (rhs_of s) (open_list sp)"
        unfolding keys_fresh_def
      proof
        fix e
        assume e: "e \<in> set (open_list sp)"
        with sub kf have "calc_key (world s) (goal (world s)) (snd e) (g_of s) (rhs_of s)
            = Inr (fst e)"
          unfolding keys_fresh_def by blast
        moreover from e nn have "snd e \<noteq> n" by blast
        then have "calc_key (world s) (goal (world s)) (snd e) ((g_of s)(n \<mapsto> v)) (rhs_of s)
            = calc_key (world s) (goal (world s)) (snd e) (g_of s) (rhs_of s)"
          by (intro calc_key_local) simp_all
        ultimately show "calc_key (world s) (goal (world s)) (snd e) ((g_of s)(n \<mapsto> v))
            (rhs_of s) = Inr (fst e)" by simp
      qed
      show "rhs_fresh (world s) ((g_of s)(n \<mapsto> v)) (rhs_of s) (insert n U)"
        unfolding rhs_fresh_def
      proof (intro ballI impI)
        fix m
        assume m: "m \<in> dom ((g_of s)(n \<mapsto> v))" "m \<noteq> start (world s)" "m \<notin> insert n U"
        then have "m \<in> dom (g_of s)" by auto
        with rf m have "rhs_of s m = Some (lookahead (world s) (g_of s) (neighbors (world s) m) \<infinity>)"
          unfolding rhs_fresh_def by blast
        moreover from m have "n \<notin> set (neighbors (world s) m)" by (simp add: U_def)
        then have "lookahead (world s) ((g_of s)(n \<mapsto> v)) (neighbors (world s) m) \<infinity>
            = lookahead (world s) (g_of s) (neighbors (world s) m) \<infinity>"
          by (rule lookahead_upd_notin)
        ultimately show "rhs_of s m
            = Some (lookahead (world s) ((g_of s)(n \<mapsto> v)) (neighbors (world s) m) \<infinity>)"
          by simp
      qed
    qed
    have lsp: "\<forall>e \<in> set (open_list sp). live (world s) (snd e)"
      using lv sub by blast
    show ?thesis
    proof (cases "gv > rv")
      case True
      with st' gv rv have s1: "s1 = sp\<lparr>g_of := (g_of s)(n \<mapsto> rv)\<rparr>"
        by (simp add: settle_def sp_def)
      have "quiet (world s) ((g_of s)(n \<mapsto> rv))"
        using q ln by (auto simp: quiet_def gval_def)
      moreover have "rhs_fresh (world s) ((g_of s)(n \<mapsto> rv)) (rhs_of s) U"
      proof -
        have "rhs_fresh (world s) ((g_of s)(n \<mapsto> rv)) (rhs_of s) (insert n U)"
          using step by blast
        moreover have "rhs_of s n
            = Some (lookahead (world s) ((g_of s)(n \<mapsto> rv)) (neighbors (world s) n) \<infinity>)"
          if "n \<noteq> start (world s)" "n \<notin> U"
        proof -
          from that rf gv have "rhs_of s n
              = Some (lookahead (world s) (g_of s) (neighbors (world s) n) \<infinity>)"
            unfolding rhs_fresh_def by blast
          moreover from that have "n \<notin> set (neighbors (world s) n)" by (simp add: U_def)
          then have "lookahead (world s) ((g_of s)(n \<mapsto> rv)) (neighbors (world s) n) \<infinity>
              = lookahead (world s) (g_of s) (neighbors (world s) n) \<infinity>"
            by (rule lookahead_upd_notin)
          ultimately show ?thesis by simp
        qed
        ultimately show ?thesis
          unfolding rhs_fresh_def by blast
      qed
      ultimately show ?thesis
        using step [of rv] lsp by (simp add: s1 sp_def)
    next
      case False
      with st' gv rv obtain rhs' ol' where
        uv: "update_vertex (world s) n (rhs_of s) ((g_of s)(n \<mapsto> \<infinity>)) (open_list sp)
            = Inr (rhs', ol')"
        and s1: "s1 = sp\<lparr>rhs_of := rhs', g_of := (g_of s)(n \<mapsto> \<infinity>), open_list := ol'\<rparr>"
        by (auto simp: settle_def Let_def sp_def split: sum.splits)
      have "quiet (world s) ((g_of s)(n \<mapsto> \<infinity>))"
        using q by (auto simp: quiet_def gval_def)
      moreover have "keys_fresh (world s) ((g_of s)(n \<mapsto> \<infinity>)) rhs' ol'"
        using uv step by (blast intro: update_vertex_keys)
      moreover have "rhs_fresh (world s) ((g_of s)(n \<mapsto> \<infinity>)) rhs' U"
      proof -
        have "rhs_fresh (world s) ((g_of s)(n \<mapsto> \<infinity>)) rhs' (insert n U - {n})"
          using uv step by (blast intro: update_vertex_rhs_fresh)
        then show ?thesis by (rule rhs_fresh_mono) auto
      qed
      moreover have "\<forall>e \<in> set ol'. live (world s) (snd e)"
        using uv lsp ln by (rule update_vertex_live)
      ultimately show ?thesis
        by (simp add: s1 sp_def)
    qed
  qed
  show "pass_inv s1 {m. n \<in> set (neighbors (world s) m)}"
    unfolding pass_inv_def U_def [symmetric] using si1 w1 rest ss by simp
  show "world s1 = world s" "topKey s1 = tk" "run s1 = run s" by fact+
  show "\<forall>m. m \<noteq> n \<longrightarrow> g_of s1 m = g_of s m" using rest by blast
qed

lemma lookahead_all_inf:
  "(\<And>w. gval g w = \<infinity>) \<Longrightarrow> lookahead gr g ns \<infinity> = \<infinity>"
proof (induction ns)
  case Nil
  then show ?case by simp
next
  case (Cons w ws)
  have "wv gr g w = \<infinity>" using Cons.prems [of w] by (simp add: wv_def)
  with Cons show ?case by simp
qed

lemma init_costs_gval: "gval (init_costs gr) w = \<infinity>"
  by (cases "init_costs gr w") (auto simp: gval_def dest: init_costs_val)

lemma lpa_init_loop_inv:
  assumes init: "lpa_init gr = Inr s" and sym: "symmetric gr" and ss: "is_start gr (start gr)"
  shows "loop_inv s"
proof -
  from init obtain k gv where
    gv: "init_costs gr (start gr) = Some gv"
    and k: "calc_key gr (goal gr) (start gr) (init_costs gr) ((init_costs gr)(start gr \<mapsto> 0)) = Inr k"
    and s: "s = \<lparr>world = gr, rhs_of = (init_costs gr)(start gr \<mapsto> 0), g_of = init_costs gr,
                 open_list = [(k, start gr)], topKey = k, run = True\<rparr>"
    by (auto simp: lpa_init_def Let_def calc_key_def split: option.splits sum.splits)
  from gv have inf: "gv = \<infinity>" by (rule init_costs_val)
  have si: "state_inv s" using init by (rule lpa_init_inv)
  have kf: "keys_fresh gr (init_costs gr) ((init_costs gr)(start gr \<mapsto> 0)) [(k, start gr)]"
    using k by (simp add: keys_fresh_def)
  have rf: "rhs_fresh gr (init_costs gr) ((init_costs gr)(start gr \<mapsto> 0)) {}"
    unfolding rhs_fresh_def
  proof (intro ballI impI)
    fix m
    assume m: "m \<in> dom (init_costs gr)" "m \<noteq> start gr"
    then obtain v where "init_costs gr m = Some v" by auto
    moreover from this have "v = \<infinity>" by (rule init_costs_val)
    moreover have "lookahead gr (init_costs gr) (neighbors gr m) \<infinity> = \<infinity>"
      by (rule lookahead_all_inf) (rule init_costs_gval)
    ultimately show "((init_costs gr)(start gr \<mapsto> 0)) m
        = Some (lookahead gr (init_costs gr) (neighbors gr m) \<infinity>)"
      using m by simp
  qed
  have q: "quiet gr (init_costs gr)"
    by (simp add: quiet_def init_costs_gval)
  have lv: "live gr (start gr)"
    using ss by (simp add: live_def is_start_def)
  have "snd k = 0"
    using k gv inf by (auto simp: calc_key_def)
  then have tk: "snd k \<noteq> \<infinity>" by simp
  show ?thesis
    unfolding loop_inv_def pass_inv_def
    using si kf rf q lv ss sym tk by (simp add: s init_costs_gval)
qed

lemma finish_pass_other:
  assumes "finish_pass rfuel s n = Some (Inr s')" "n \<noteq> goal (world s)"
  shows "\<exists>gr4. s' = s\<lparr>world := gr4\<rparr> \<and> advance (world s) gr4"
proof -
  define gr4 where "gr4 = (if \<not> is_start (draw (world s)) n \<and> \<not> is_end (draw (world s)) n
      then node_check (draw (world s)) n else draw (world s))"
  have "advance (draw (world s)) gr4"
    by (simp add: gr4_def advance_node_check)
  with advance_draw have a: "advance (world s) gr4" by (rule advance_trans)
  have "finish_pass rfuel s n =
      (if n = goal (world s)
       then (case reconstruct_path rfuel gr4 n (rhs_of s) of
               None \<Rightarrow> None
             | Some (Inl (e, gr5)) \<Rightarrow> Some (Inl e)
             | Some (Inr gr5) \<Rightarrow> Some (Inr (s\<lparr>world := gr5\<rparr>)))
       else Some (Inr (s\<lparr>world := gr4\<rparr>)))"
    by (simp add: finish_pass_def Let_def gr4_def node_check_def draw_def)
  with assms have "s' = s\<lparr>world := gr4\<rparr>" by simp
  with a show ?thesis by blast
qed

lemma symmetric_frame: "same_frame gr gr' \<Longrightarrow> symmetric gr \<Longrightarrow> symmetric gr'"
  by (simp add: symmetric_def same_frame_def)

lemma gval_other: "g' m = g m \<Longrightarrow> gval g' m = gval g m"
  by (simp add: gval_def)

lemma lpa_body_loop_inv:
  assumes body: "lpa_body rfuel k s = Some (Inr s')"
    and inv: "loop_inv s" and ne: "open_list s \<noteq> []"
    and pop: "heappop k (open_list s) = ((tk, n), ol)"
    and ng: "n \<noteq> goal (world s)"
  shows "loop_inv s'"
proof -
  from inv have pi: "pass_inv s {}" and sym: "symmetric (world s)"
    and gg: "gval (g_of s) (goal (world s)) = \<infinity>"
    by (simp_all add: loop_inv_def)
  from heappop_least [OF ne pop] have
    mem: "(tk, n) \<in> set (open_list s)" and ol: "ol = remove1 (tk, n) (open_list s)"
    by simp_all
  from body pop obtain s1 s2 where
    s1: "settle (s\<lparr>open_list := ol, topKey := tk\<rparr>) n = Inr s1"
    and s2: "update_neighbors s1 (neighbors (world s1) n) = Inr s2"
    and fp: "finish_pass rfuel s2 n = Some (Inr s')"
    by (auto simp: lpa_body_def split: sum.splits)
  from settle_pass [OF pi mem s1 [unfolded ol]] have
    p1: "pass_inv s1 {m. n \<in> set (neighbors (world s) m)}"
    and w1: "world s1 = world s" and t1: "topKey s1 = tk"
    and g1: "\<forall>m. m \<noteq> n \<longrightarrow> g_of s1 m = g_of s m"
    by simp_all
  have sub: "{m. n \<in> set (neighbors (world s) m)} \<subseteq> set (neighbors (world s1) n)"
    using sym by (auto simp: symmetric_def w1)
  from update_neighbors_pass [OF s2 p1 sub] have
    p2: "pass_inv s2 {}" and a2: "advance (world s1) (world s2)"
    and g2: "g_of s2 = g_of s1" and t2: "topKey s2 = topKey s1"
    by simp_all
  from a2 w1 have f2: "same_frame (world s) (world s2)" by (simp add: advance_def)
  have ng2: "n \<noteq> goal (world s2)"
    using ng f2 by (simp add: same_frame_def)
  from finish_pass_other [OF fp ng2] obtain gr4 where
    s': "s' = s2\<lparr>world := gr4\<rparr>" and a4: "advance (world s2) gr4" by blast
  have p': "pass_inv s' {}"
    unfolding s' using a4 p2 by (rule pass_inv_advance)
  from a4 f2 have f4: "same_frame (world s) gr4"
    by (auto simp: advance_def intro: same_frame_trans)
  have sym': "symmetric (world s')"
    using f4 sym by (simp add: s' symmetric_frame)
  from pi mem have "calc_key (world s) (goal (world s)) n (g_of s) (rhs_of s) = Inr tk"
    by (force simp: pass_inv_def keys_fresh_def)
  moreover from pi mem have "g_of s n \<noteq> rhs_of s n"
    by (force simp: pass_inv_def state_inv_def open_inv_def)
  ultimately have "snd tk \<noteq> \<infinity>" by (rule key_snd_finite)
  then have tk': "snd (topKey s') \<noteq> \<infinity>"
    by (simp add: s' t2 t1)
  have "goal (world s') = goal (world s)"
    using f4 by (simp add: s' same_frame_def)
  moreover have "g_of s' (goal (world s)) = g_of s (goal (world s))"
    using g1 ng by (simp add: s' g2)
  ultimately have "gval (g_of s') (goal (world s')) = \<infinity>"
    using gg by (simp add: gval_def)
  with p' sym' tk' show ?thesis by (simp add: loop_inv_def)
qed

lemma last_invI:
  assumes "g_of s = g0(goal (world s) \<mapsto> r)" "gval g0 (goal (world s)) = \<infinity>" "r \<noteq> \<infinity>"
    "state_inv s" "keys_fresh (world s) (g_of s) (rhs_of s) (open_list s)"
    "quiet (world s) (g_of s)" "is_start (world s) (start (world s))"
    "\<forall>en \<in> set (open_list s). \<not> key_less (fst en) (r, r)"
    "\<forall>m \<in> dom (g_of s). m \<noteq> start (world s) \<longrightarrow>
            rhs_of s m = Some (lookahead (world s) (g_of s) (neighbors (world s) m) \<infinity>)
            \<or> rhs_of s m = Some (lookahead (world s) g0 (neighbors (world s) m) \<infinity>)"
    "rhs_of s (goal (world s)) = Some r"
    "goal (world s) \<noteq> start (world s) \<longrightarrow>
            lookahead (world s) g0 (neighbors (world s) (goal (world s))) \<infinity> = r"
  shows "last_inv g0 r s"
  unfolding last_inv_def using assms by blast

lemma quiet_before:
  assumes "quiet gr (g0(e \<mapsto> r))" "r \<noteq> \<infinity>" "gval g0 e = \<infinity>"
  shows "quiet gr g0"
  unfolding quiet_def
proof (intro allI impI)
  fix w
  assume "\<not> live gr w"
  with assms(1) have w: "gval (g0(e \<mapsto> r)) w = \<infinity>" by (simp add: quiet_def)
  with assms(2) have "w \<noteq> e" by (auto simp: gval_def)
  with w show "gval g0 w = \<infinity>" by (simp add: gval_def)
qed

lemma last_inv_advance:
  assumes adv: "advance (world s) gr'" and inv: "last_inv g0 r s"
  shows "last_inv g0 r (s\<lparr>world := gr'\<rparr>)"
proof -
  from adv have fr: "same_frame (world s) gr'" by (rule advance_frame)
  then have st: "start gr' = start (world s)" and gl: "goal gr' = goal (world s)"
    and nb: "neighbors gr' = neighbors (world s)"
    by (simp_all add: same_frame_def)
  from inv have g: "g_of s = g0(goal (world s) \<mapsto> r)" and g0: "gval g0 (goal (world s)) = \<infinity>"
    and r: "r \<noteq> \<infinity>" and si: "state_inv s"
    and kf: "keys_fresh (world s) (g_of s) (rhs_of s) (open_list s)"
    and q: "quiet (world s) (g_of s)" and ss: "is_start (world s) (start (world s))"
    and ge: "\<forall>en \<in> set (open_list s). \<not> key_less (fst en) (r, r)"
    and dj: "\<forall>m \<in> dom (g_of s). m \<noteq> start (world s) \<longrightarrow>
            rhs_of s m = Some (lookahead (world s) (g_of s) (neighbors (world s) m) \<infinity>)
            \<or> rhs_of s m = Some (lookahead (world s) g0 (neighbors (world s) m) \<infinity>)"
    and re: "rhs_of s (goal (world s)) = Some r"
    and le: "goal (world s) \<noteq> start (world s) \<longrightarrow>
            lookahead (world s) g0 (neighbors (world s) (goal (world s))) \<infinity> = r"
    unfolding last_inv_def by blast+
  have q0: "quiet (world s) g0"
    using q r g0 unfolding g by (rule quiet_before)
  have la: "lookahead gr' (g_of s) (neighbors gr' m) \<infinity>
      = lookahead (world s) (g_of s) (neighbors (world s) m) \<infinity>" for m
    using adv q by (rule frame_lookahead_neighbors)
  have la0: "lookahead gr' g0 (neighbors gr' m) \<infinity>
      = lookahead (world s) g0 (neighbors (world s) m) \<infinity>" for m
    using adv q0 by (rule frame_lookahead_neighbors)
  have 1: "state_inv (s\<lparr>world := gr'\<rparr>)"
    using si st by (simp add: state_inv_def)
  have 2: "keys_fresh gr' (g_of s) (rhs_of s) (open_list s)"
    unfolding keys_fresh_def
  proof
    fix e
    assume "e \<in> set (open_list s)"
    with kf have "calc_key (world s) (goal (world s)) (snd e) (g_of s) (rhs_of s) = Inr (fst e)"
      unfolding keys_fresh_def by blast
    then show "calc_key gr' (goal gr') (snd e) (g_of s) (rhs_of s) = Inr (fst e)"
      by (simp only: calc_key_frame [OF fr])
  qed
  have 3: "quiet gr' (g_of s)" using adv q by (rule advance_quiet)
  have 4: "is_start gr' (start gr')" using adv ss by (rule advance_start)
  show ?thesis
  proof (rule last_invI)
    show "g_of (s\<lparr>world := gr'\<rparr>) = g0(goal (world (s\<lparr>world := gr'\<rparr>)) \<mapsto> r)"
      using g gl by simp
    show "gval g0 (goal (world (s\<lparr>world := gr'\<rparr>))) = \<infinity>"
      using g0 gl by simp
    show "r \<noteq> \<infinity>" by fact
    show "state_inv (s\<lparr>world := gr'\<rparr>)" by fact
    show "keys_fresh (world (s\<lparr>world := gr'\<rparr>)) (g_of (s\<lparr>world := gr'\<rparr>))
        (rhs_of (s\<lparr>world := gr'\<rparr>)) (open_list (s\<lparr>world := gr'\<rparr>))"
      using 2 by simp
    show "quiet (world (s\<lparr>world := gr'\<rparr>)) (g_of (s\<lparr>world := gr'\<rparr>))"
      using 3 by simp
    show "is_start (world (s\<lparr>world := gr'\<rparr>)) (start (world (s\<lparr>world := gr'\<rparr>)))"
      using 4 by simp
    show "\<forall>en \<in> set (open_list (s\<lparr>world := gr'\<rparr>)). \<not> key_less (fst en) (r, r)"
      using ge by simp
    show "\<forall>m \<in> dom (g_of (s\<lparr>world := gr'\<rparr>)). m \<noteq> start (world (s\<lparr>world := gr'\<rparr>)) \<longrightarrow>
        rhs_of (s\<lparr>world := gr'\<rparr>) m = Some (lookahead (world (s\<lparr>world := gr'\<rparr>))
          (g_of (s\<lparr>world := gr'\<rparr>)) (neighbors (world (s\<lparr>world := gr'\<rparr>)) m) \<infinity>)
        \<or> rhs_of (s\<lparr>world := gr'\<rparr>) m = Some (lookahead (world (s\<lparr>world := gr'\<rparr>)) g0
          (neighbors (world (s\<lparr>world := gr'\<rparr>)) m) \<infinity>)"
    proof (intro ballI impI)
      fix m
      assume "m \<in> dom (g_of (s\<lparr>world := gr'\<rparr>))" "m \<noteq> start (world (s\<lparr>world := gr'\<rparr>))"
      then have "m \<in> dom (g_of s)" "m \<noteq> start (world s)" using st by simp_all
      with dj have "rhs_of s m = Some (lookahead (world s) (g_of s) (neighbors (world s) m) \<infinity>)
            \<or> rhs_of s m = Some (lookahead (world s) g0 (neighbors (world s) m) \<infinity>)"
        by blast
      then have "rhs_of s m = Some (lookahead gr' (g_of s) (neighbors gr' m) \<infinity>)
            \<or> rhs_of s m = Some (lookahead gr' g0 (neighbors gr' m) \<infinity>)"
        by (simp only: la la0)
      then show "rhs_of (s\<lparr>world := gr'\<rparr>) m = Some (lookahead (world (s\<lparr>world := gr'\<rparr>))
          (g_of (s\<lparr>world := gr'\<rparr>)) (neighbors (world (s\<lparr>world := gr'\<rparr>)) m) \<infinity>)
        \<or> rhs_of (s\<lparr>world := gr'\<rparr>) m = Some (lookahead (world (s\<lparr>world := gr'\<rparr>)) g0
          (neighbors (world (s\<lparr>world := gr'\<rparr>)) m) \<infinity>)"
        by simp
    qed
    show "rhs_of (s\<lparr>world := gr'\<rparr>) (goal (world (s\<lparr>world := gr'\<rparr>))) = Some r"
      using re gl by simp
    show "goal (world (s\<lparr>world := gr'\<rparr>)) \<noteq> start (world (s\<lparr>world := gr'\<rparr>)) \<longrightarrow>
        lookahead (world (s\<lparr>world := gr'\<rparr>)) g0
          (neighbors (world (s\<lparr>world := gr'\<rparr>)) (goal (world (s\<lparr>world := gr'\<rparr>)))) \<infinity> = r"
      using le la0 [of "goal (world s)"] gl st by simp
  qed
qed

lemma manhattan_self [simp]: "manhattan gr n n = 0"
  by (simp add: manhattan_def)

lemma key_not_less_bump:
  assumes "r \<noteq> \<infinity>" "r + 1 \<le> v"
  shows "\<not> key_less (v + h, v) (r, r)"
proof
  assume "key_less (v + h, v) (r, r)"
  then have "v + h \<le> r" by (auto simp: key_less_def)
  moreover have "v \<le> v + h" by (cases v; cases h) simp_all
  ultimately have "v \<le> r" by (rule order_trans [rotated])
  with assms(2) have "r + 1 \<le> r" by (rule order_trans)
  with assms(1) show False
    by (cases r) (simp_all add: one_enat_def)
qed

lemma last_inv_update:
  assumes uv: "update_vertex (world s) nb (rhs_of s) (g_of s) (open_list s) = Inr (rhs', ol')"
    and inv: "last_inv g0 r s"
  shows "last_inv g0 r (s\<lparr>rhs_of := rhs', open_list := ol'\<rparr>)"
proof (cases "nb = start (world s)")
  case True
  with uv have "rhs' = rhs_of s" "ol' = open_list s" by (simp_all add: update_vertex_def)
  then have "s\<lparr>rhs_of := rhs', open_list := ol'\<rparr> = s" by simp
  with inv show ?thesis by (simp only:)
next
  case False
  define gr where "gr = world s"
  define e where "e = goal gr"
  define la where "la = lookahead gr (g_of s) (neighbors gr nb) \<infinity>"
  define la0 where "la0 = lookahead gr g0 (neighbors gr nb) \<infinity>"
  define c where "c = (if e \<in> set (neighbors gr nb) \<and> counts_for_rhs gr e then r + 1 else \<infinity>)"
  from inv have g: "g_of s = g0(e \<mapsto> r)" and g0: "gval g0 e = \<infinity>"
    and r: "r \<noteq> \<infinity>" and si: "state_inv s"
    and kf: "keys_fresh gr (g_of s) (rhs_of s) (open_list s)"
    and q: "quiet gr (g_of s)" and ss: "is_start gr (start gr)"
    and ge: "\<forall>en \<in> set (open_list s). \<not> key_less (fst en) (r, r)"
    and dj: "\<forall>m \<in> dom (g_of s). m \<noteq> start gr \<longrightarrow>
            rhs_of s m = Some (lookahead gr (g_of s) (neighbors gr m) \<infinity>)
            \<or> rhs_of s m = Some (lookahead gr g0 (neighbors gr m) \<infinity>)"
    and re: "rhs_of s e = Some r"
    and le: "e \<noteq> start gr \<longrightarrow> lookahead gr g0 (neighbors gr e) \<infinity> = r"
    unfolding last_inv_def gr_def e_def by blast+
  have uv': "update_vertex gr nb (rhs_of s) (g_of s) (open_list s) = Inr (rhs', ol')"
    using uv by (simp add: gr_def)
  have ns: "nb \<noteq> start gr" using False by (simp add: gr_def)
  from update_vertex_lookahead [OF uv' ns] obtain gv where
    gv: "g_of s nb = Some gv" and r': "rhs' = (rhs_of s)(nb \<mapsto> la)"
    and eq: "gv = la \<Longrightarrow> ol' = filter (\<lambda>(k, v). v \<noteq> nb) (open_list s)"
    and ne: "gv \<noteq> la \<Longrightarrow> \<exists>k. calc_key gr (goal gr) nb (g_of s) rhs' = Inr k \<and>
           ol' = filter (\<lambda>(k, v). v \<noteq> nb) (open_list s) @ [(k, nb)]"
    unfolding la_def by metis
  have lac: "la = min la0 c"
    unfolding la_def la0_def c_def g using g0 by (rule lookahead_upd_inf)
  from dj gv ns have old: "rhs_of s nb = Some la \<or> rhs_of s nb = Some la0"
    unfolding la_def la0_def by blast
  have 1: "state_inv (s\<lparr>rhs_of := rhs', open_list := ol'\<rparr>)"
  proof -
    have "open_inv rhs' (g_of s) ol'"
      using update_vertex_open_inv_full [OF uv'] si by (simp add: state_inv_def)
    moreover have "rhs' (start gr) = Some 0"
      using update_vertex_rhs_start [OF uv'] si by (simp add: state_inv_def gr_def)
    ultimately show ?thesis by (simp add: state_inv_def gr_def)
  qed
  have 2: "keys_fresh gr (g_of s) rhs' ol'"
    using uv' kf by (rule update_vertex_keys)
  have 3: "\<forall>m \<in> dom (g_of s). m \<noteq> start gr \<longrightarrow>
            rhs' m = Some (lookahead gr (g_of s) (neighbors gr m) \<infinity>)
            \<or> rhs' m = Some (lookahead gr g0 (neighbors gr m) \<infinity>)"
    using dj by (auto simp: r' la_def)
  have 4: "rhs' e = Some r"
  proof (cases "nb = e")
    case True
    with ns le have "la0 = r" by (simp add: la0_def)
    moreover have "c = r + 1 \<or> c = \<infinity>" by (simp add: c_def)
    ultimately have "la = r"
      using lac by (auto simp: min_def)
    with True show ?thesis by (simp add: r')
  next
    case False
    with re show ?thesis by (simp add: r')
  qed
  have 5: "\<forall>en \<in> set ol'. \<not> key_less (fst en) (r, r)"
  proof
    fix en
    assume en: "en \<in> set ol'"
    show "\<not> key_less (fst en) (r, r)"
    proof (cases "gv = la")
      case True
      from eq [OF True] en ge show ?thesis by auto
    next
      case gne: False
      from ne [OF gne] obtain k where
        k: "calc_key gr (goal gr) nb (g_of s) rhs' = Inr k"
        and ol': "ol' = filter (\<lambda>(k, v). v \<noteq> nb) (open_list s) @ [(k, nb)]" by blast
      show ?thesis
      proof (cases "en = (k, nb)")
        case False
        with en ol' ge show ?thesis by auto
      next
        case True
        have kv: "k = (min gv la + enat (nat (manhattan gr nb (goal gr))), min gv la)"
          using k gv by (simp add: calc_key_def r')
        have same: "\<not> key_less k (r, r)" if o: "rhs_of s nb = Some ro" and m: "min gv ro = min gv la"
          and d: "gv \<noteq> ro" for ro
        proof -
          from si gv o d have "nb \<in> snd ` set (open_list s)"
            by (simp add: state_inv_def open_inv_def)
          then obtain k0 where k0: "(k0, nb) \<in> set (open_list s)" by force
          with kf have "calc_key gr (goal gr) nb (g_of s) (rhs_of s) = Inr k0"
            by (force simp: keys_fresh_def)
          then have "k0 = (min gv ro + enat (nat (manhattan gr nb (goal gr))), min gv ro)"
            using gv o by (simp add: calc_key_def)
          with kv m have "k0 = k" by simp
          with k0 ge show ?thesis by force
        qed
        have "\<not> key_less k (r, r)"
        proof (cases "rhs_of s nb = Some la")
          case True
          then show ?thesis using gne by (intro same) simp_all
        next
          case False
          with old have o: "rhs_of s nb = Some la0" by simp
          with False have "la \<noteq> la0" by auto
          with lac have lc: "la = c" "c < la0" by (auto simp: min_def split: if_splits)
          have "c \<noteq> \<infinity>"
          proof
            assume "c = \<infinity>"
            with lc(2) show False by simp
          qed
          then have c1: "c = r + 1" by (auto simp: c_def split: if_splits)
          show ?thesis
          proof (cases "gv < la")
            case True
            with lc have "gv < la0" by simp
            with True have "min gv la0 = min gv la" "gv \<noteq> la0"
              by (simp_all add: min_absorb1 less_imp_le)
            with o show ?thesis by (intro same) simp_all
          next
            case False
            with gne have "la < gv" by simp
            then have "min gv la = la" by (intro min_absorb2 less_imp_le)
            then have "min gv la = r + 1" using lc c1 by simp
            with kv have "k = (r + 1 + enat (nat (manhattan gr nb (goal gr))), r + 1)" by simp
            then show ?thesis using key_not_less_bump [OF r, of "r + 1"] by simp
          qed
        qed
        with True show ?thesis by simp
      qed
    qed
  qed
  show ?thesis
  proof (rule last_invI)
    show "g_of (s\<lparr>rhs_of := rhs', open_list := ol'\<rparr>)
        = g0(goal (world (s\<lparr>rhs_of := rhs', open_list := ol'\<rparr>)) \<mapsto> r)"
      using g by (simp add: e_def gr_def)
    show "gval g0 (goal (world (s\<lparr>rhs_of := rhs', open_list := ol'\<rparr>))) = \<infinity>"
      using g0 by (simp add: e_def gr_def)
    show "r \<noteq> \<infinity>" by fact
    show "state_inv (s\<lparr>rhs_of := rhs', open_list := ol'\<rparr>)" by fact
    show "keys_fresh (world (s\<lparr>rhs_of := rhs', open_list := ol'\<rparr>))
        (g_of (s\<lparr>rhs_of := rhs', open_list := ol'\<rparr>))
        (rhs_of (s\<lparr>rhs_of := rhs', open_list := ol'\<rparr>))
        (open_list (s\<lparr>rhs_of := rhs', open_list := ol'\<rparr>))"
      using 2 by (simp add: gr_def)
    show "quiet (world (s\<lparr>rhs_of := rhs', open_list := ol'\<rparr>))
        (g_of (s\<lparr>rhs_of := rhs', open_list := ol'\<rparr>))"
      using q by (simp add: gr_def)
    show "is_start (world (s\<lparr>rhs_of := rhs', open_list := ol'\<rparr>))
        (start (world (s\<lparr>rhs_of := rhs', open_list := ol'\<rparr>)))"
      using ss by (simp add: gr_def)
    show "\<forall>en \<in> set (open_list (s\<lparr>rhs_of := rhs', open_list := ol'\<rparr>)).
        \<not> key_less (fst en) (r, r)"
      using 5 by simp
    show "\<forall>m \<in> dom (g_of (s\<lparr>rhs_of := rhs', open_list := ol'\<rparr>)).
        m \<noteq> start (world (s\<lparr>rhs_of := rhs', open_list := ol'\<rparr>)) \<longrightarrow>
        rhs_of (s\<lparr>rhs_of := rhs', open_list := ol'\<rparr>) m
          = Some (lookahead (world (s\<lparr>rhs_of := rhs', open_list := ol'\<rparr>))
              (g_of (s\<lparr>rhs_of := rhs', open_list := ol'\<rparr>))
              (neighbors (world (s\<lparr>rhs_of := rhs', open_list := ol'\<rparr>)) m) \<infinity>)
        \<or> rhs_of (s\<lparr>rhs_of := rhs', open_list := ol'\<rparr>) m
          = Some (lookahead (world (s\<lparr>rhs_of := rhs', open_list := ol'\<rparr>)) g0
              (neighbors (world (s\<lparr>rhs_of := rhs', open_list := ol'\<rparr>)) m) \<infinity>)"
      using 3 by (simp add: gr_def)
    show "rhs_of (s\<lparr>rhs_of := rhs', open_list := ol'\<rparr>)
        (goal (world (s\<lparr>rhs_of := rhs', open_list := ol'\<rparr>))) = Some r"
      using 4 by (simp add: e_def gr_def)
    show "goal (world (s\<lparr>rhs_of := rhs', open_list := ol'\<rparr>))
        \<noteq> start (world (s\<lparr>rhs_of := rhs', open_list := ol'\<rparr>)) \<longrightarrow>
        lookahead (world (s\<lparr>rhs_of := rhs', open_list := ol'\<rparr>)) g0
          (neighbors (world (s\<lparr>rhs_of := rhs', open_list := ol'\<rparr>))
            (goal (world (s\<lparr>rhs_of := rhs', open_list := ol'\<rparr>)))) \<infinity> = r"
      using le by (simp add: e_def gr_def)
  qed
qed

lemma update_neighbors_last:
  "update_neighbors s ns = Inr s' \<Longrightarrow> last_inv g0 r s \<Longrightarrow>
   last_inv g0 r s' \<and> same_frame (world s) (world s') \<and> topKey s' = topKey s \<and> run s' = run s"
proof (induction ns arbitrary: s)
  case Nil
  then show ?case by simp
next
  case (Cons nb ns)
  define gr' where "gr' = (if \<not> is_start (world s) nb \<and> \<not> is_end (world s) nb
      \<and> \<not> is_checked (world s) nb then uncheck (world s) nb else world s)"
  from Cons.prems(1) obtain rhs' ol' where
    uv: "update_vertex gr' nb (rhs_of s) (g_of s) (open_list s) = Inr (rhs', ol')"
    and rest: "update_neighbors (s\<lparr>world := gr', rhs_of := rhs', open_list := ol'\<rparr>) ns = Inr s'"
    by (auto simp: Let_def gr'_def split: sum.splits)
  have adv: "advance (world s) gr'"
    by (simp add: gr'_def advance_uncheck)
  have p1: "last_inv g0 r (s\<lparr>world := gr'\<rparr>)"
    using adv Cons.prems(2) by (rule last_inv_advance)
  have "last_inv g0 r (s\<lparr>world := gr'\<rparr>\<lparr>rhs_of := rhs', open_list := ol'\<rparr>)"
    using uv p1 by (intro last_inv_update) simp_all
  then have p2: "last_inv g0 r (s\<lparr>world := gr', rhs_of := rhs', open_list := ol'\<rparr>)"
    by simp
  from Cons.IH [OF rest p2] advance_frame [OF adv] show ?case
    by (auto intro: same_frame_trans)
qed

lemma lpa_body_final:
  assumes body: "lpa_body rfuel k s = Some (Inr s')"
    and inv: "loop_inv s" and ne: "open_list s \<noteq> []"
    and pop: "heappop k (open_list s) = ((tk, n), ol)"
    and ng: "n = goal (world s)"
  shows "final_inv s'"
proof -
  define gr where "gr = world s"
  define g0 where "g0 = g_of s"
  from inv have pi: "pass_inv s {}" and gg: "gval g0 n = \<infinity>"
    by (simp_all add: loop_inv_def ng g0_def)
  from pi have si: "state_inv s"
    and kf: "keys_fresh gr g0 (rhs_of s) (open_list s)"
    and rf: "rhs_fresh gr g0 (rhs_of s) {}"
    unfolding pass_inv_def gr_def g0_def by blast+
  from heappop_least [OF ne pop] have
    mem: "(tk, n) \<in> set (open_list s)" and ol: "ol = remove1 (tk, n) (open_list s)"
    and least: "\<forall>e' \<in> set (open_list s). \<not> key_less (fst e') tk"
    by simp_all
  from body pop obtain s1 s2 where
    s1: "settle (s\<lparr>open_list := ol, topKey := tk\<rparr>) n = Inr s1"
    and s2: "update_neighbors s1 (neighbors (world s1) n) = Inr s2"
    and fp: "finish_pass rfuel s2 n = Some (Inr s')"
    by (auto simp: lpa_body_def split: sum.splits)
  from settle_pass [OF pi mem s1 [unfolded ol]] have
    p1: "pass_inv s1 {m. n \<in> set (neighbors (world s) m)}"
    and w1: "world s1 = gr" and t1: "topKey s1 = tk"
    by (simp_all add: gr_def)
  from si mem have inc: "g0 n \<noteq> rhs_of s n" and dm: "dom (rhs_of s) = dom g0"
    by (force simp: state_inv_def open_inv_def g0_def)+
  from s1 obtain gv rv where gv: "g0 n = Some gv" and rv: "rhs_of s n = Some rv"
    by (auto simp: settle_def g0_def split: option.splits)
  from gg gv have ginf: "gv = \<infinity>" by (simp add: gval_def)
  with inc gv rv have rfin: "rv \<noteq> \<infinity>" by auto
  then have "gv > rv" using ginf by (simp add: less_top [symmetric])
  with s1 gv rv have s1eq: "s1 = s\<lparr>open_list := ol, topKey := tk, g_of := g0(n \<mapsto> rv)\<rparr>"
    by (simp add: settle_def g0_def)
  from kf mem have "calc_key gr (goal gr) n g0 (rhs_of s) = Inr tk"
    by (force simp: keys_fresh_def)
  with gv rv ginf have tk: "tk = (rv, rv)"
    by (auto simp: calc_key_def ng gr_def zero_enat_def [symmetric])
  have l1: "last_inv g0 rv s1"
  proof (rule last_invI)
    show "g_of s1 = g0(goal (world s1) \<mapsto> rv)"
      by (simp add: s1eq ng gr_def)
    show "gval g0 (goal (world s1)) = \<infinity>"
      using gg by (simp add: s1eq ng gr_def)
    show "rv \<noteq> \<infinity>" by fact
    show "state_inv s1" "keys_fresh (world s1) (g_of s1) (rhs_of s1) (open_list s1)"
      "quiet (world s1) (g_of s1)" "is_start (world s1) (start (world s1))"
      using p1 unfolding pass_inv_def by blast+
    show "\<forall>en \<in> set (open_list s1). \<not> key_less (fst en) (rv, rv)"
    proof
      fix en
      assume "en \<in> set (open_list s1)"
      then have "en \<in> set (remove1 (tk, n) (open_list s))" by (simp add: s1eq ol)
      moreover have "set (remove1 (tk, n) (open_list s)) \<subseteq> set (open_list s)"
        by (rule set_remove1_subset)
      ultimately have "en \<in> set (open_list s)" by (rule subsetD [rotated])
      with least tk show "\<not> key_less (fst en) (rv, rv)" by simp
    qed
    show "\<forall>m \<in> dom (g_of s1). m \<noteq> start (world s1) \<longrightarrow>
        rhs_of s1 m = Some (lookahead (world s1) (g_of s1) (neighbors (world s1) m) \<infinity>)
        \<or> rhs_of s1 m = Some (lookahead (world s1) g0 (neighbors (world s1) m) \<infinity>)"
    proof (intro ballI impI)
      fix m
      assume "m \<in> dom (g_of s1)" "m \<noteq> start (world s1)"
      then have "m \<in> dom g0" "m \<noteq> start gr"
        using gv by (auto simp: s1eq gr_def)
      with rf have "rhs_of s m = Some (lookahead gr g0 (neighbors gr m) \<infinity>)"
        unfolding rhs_fresh_def by blast
      then show "rhs_of s1 m = Some (lookahead (world s1) (g_of s1) (neighbors (world s1) m) \<infinity>)
        \<or> rhs_of s1 m = Some (lookahead (world s1) g0 (neighbors (world s1) m) \<infinity>)"
        by (simp add: s1eq gr_def)
    qed
    show "rhs_of s1 (goal (world s1)) = Some rv"
      using rv by (simp add: s1eq ng)
    show "goal (world s1) \<noteq> start (world s1) \<longrightarrow>
        lookahead (world s1) g0 (neighbors (world s1) (goal (world s1))) \<infinity> = rv"
    proof
      assume "goal (world s1) \<noteq> start (world s1)"
      then have "n \<noteq> start gr" by (simp add: s1eq ng gr_def)
      moreover have "n \<in> dom g0" using gv by auto
      ultimately have "rhs_of s n = Some (lookahead gr g0 (neighbors gr n) \<infinity>)"
        using rf unfolding rhs_fresh_def by blast
      with rv show "lookahead (world s1) g0 (neighbors (world s1) (goal (world s1))) \<infinity> = rv"
        by (simp add: s1eq ng gr_def)
    qed
  qed
  from update_neighbors_last [OF s2 l1] have
    l2: "last_inv g0 rv s2" and f2: "same_frame (world s1) (world s2)"
    and t2: "topKey s2 = topKey s1"
    by simp_all
  from finish_pass_inv [OF fp] obtain gr5 where
    s': "s' = s2\<lparr>world := gr5\<rparr>" and f5: "same_frame (world s2) gr5" by blast
  from f2 w1 have g2: "goal (world s2) = n" by (simp add: same_frame_def ng gr_def)
  from f5 g2 have g5: "goal gr5 = n" by (simp add: same_frame_def)
  from l2 have gs2: "g_of s2 = g0(n \<mapsto> rv)" and rs2: "rhs_of s2 n = Some rv"
    and k2: "keys_fresh (world s2) (g_of s2) (rhs_of s2) (open_list s2)"
    and ge2: "\<forall>en \<in> set (open_list s2). \<not> key_less (fst en) (rv, rv)"
    unfolding last_inv_def g2 by blast+
  have k5: "keys_fresh gr5 (g_of s2) (rhs_of s2) (open_list s2)"
    unfolding keys_fresh_def
  proof
    fix e
    assume "e \<in> set (open_list s2)"
    with k2 have "calc_key (world s2) (goal (world s2)) (snd e) (g_of s2) (rhs_of s2) = Inr (fst e)"
      unfolding keys_fresh_def by blast
    then show "calc_key gr5 (goal gr5) (snd e) (g_of s2) (rhs_of s2) = Inr (fst e)"
      by (simp only: calc_key_frame [OF f5])
  qed
  show ?thesis
    unfolding final_inv_def
  proof (intro exI [of _ rv] conjI)
    show "g_of s' (goal (world s')) = Some rv" by (simp add: s' g5 gs2)
    show "rhs_of s' (goal (world s')) = Some rv" by (simp add: s' g5 rs2)
    show "topKey s' = (rv, rv)" by (simp add: s' t2 t1 tk)
    show "keys_fresh (world s') (g_of s') (rhs_of s') (open_list s')"
      using k5 by (simp add: s')
    show "\<forall>en \<in> set (open_list s'). \<not> key_less (fst en) (rv, rv)"
      using ge2 by (simp add: s')
  qed
qed

lemma loop_inv_run [simp]: "loop_inv (s\<lparr>run := b\<rparr>) = loop_inv s"
  by (simp add: loop_inv_def pass_inv_def state_inv_def)

lemma final_inv_stops:
  assumes "final_inv s"
  shows "loop_cond s = Inr False"
proof -
  from assms obtain r where
    "g_of s (goal (world s)) = Some r" "rhs_of s (goal (world s)) = Some r" "topKey s = (r, r)"
    unfolding final_inv_def by blast
  then show ?thesis
    by (simp add: loop_cond_def calc_key_def zero_enat_def [symmetric])
qed

lemma loop_inv_goes_on:
  assumes inv: "loop_inv s" and c: "loop_cond s = Inr b" and r: "run s"
  shows b
proof -
  from inv have gg: "gval (g_of s) (goal (world s)) = \<infinity>" and tk: "snd (topKey s) \<noteq> \<infinity>"
    by (simp_all add: loop_inv_def)
  from c obtain gv rv where gv: "g_of s (goal (world s)) = Some gv"
    and rv: "rhs_of s (goal (world s)) = Some rv"
    by (auto simp: loop_cond_def calc_key_def split: option.splits sum.splits)
  from gg gv have ginf: "gv = \<infinity>" by (simp add: gval_def)
  have ke: "calc_key (world s) (goal (world s)) (goal (world s)) (g_of s) (rhs_of s)
      = Inr (rv, rv)"
    using gv rv ginf by (simp add: calc_key_def zero_enat_def [symmetric])
  show ?thesis
  proof (cases "rv = \<infinity>")
    case True
    from tk have "key_less (topKey s) (\<infinity>, \<infinity>)"
      by (cases "fst (topKey s)") (auto simp: key_less_def)
    with c ke True r show ?thesis by (simp add: loop_cond_def)
  next
    case False
    with c ke gv rv ginf r show ?thesis by (auto simp: loop_cond_def)
  qed
qed

lemma lpa_step_keeps:
  assumes st: "lpa_step rfuel poll tie i s = Some (Inr (Continue s'))"
    and inv: "loop_inv s \<or> final_inv s"
  shows "loop_inv s' \<or> final_inv s'"
proof -
  from st have c: "loop_cond s = Inr True"
    by (auto simp: lpa_step_def split: sum.splits if_splits)
  with final_inv_stops inv have li: "loop_inv s" by force
  from st c obtain b where b: "poll i (run s) = Inr b"
    by (auto simp: lpa_step_def split: sum.splits)
  define s0 where "s0 = s\<lparr>run := b\<rparr>"
  from st c b have ne: "open_list s0 \<noteq> []"
    and body: "lpa_body rfuel (tie i) s0 = Some (Inr s')"
    by (auto simp: lpa_step_def Let_def s0_def split: sum.splits if_splits option.splits)
  have l0: "loop_inv s0" using li by (simp add: s0_def)
  obtain tk n ol where pop: "heappop (tie i) (open_list s0) = ((tk, n), ol)"
    by (metis prod.exhaust)
  show ?thesis
  proof (cases "n = goal (world s0)")
    case True
    from lpa_body_final [OF body l0 ne pop True] show ?thesis by simp
  next
    case False
    from lpa_body_loop_inv [OF body l0 ne pop False] show ?thesis by simp
  qed
qed

lemma lpa_at_keeps:
  assumes sym: "symmetric gr" and ss: "is_start gr (start gr)"
  shows "lpa_at rfuel poll tie gr i = Some s \<Longrightarrow> loop_inv s \<or> final_inv s"
proof (induction i arbitrary: s)
  case 0
  then have "lpa_init gr = Inr s" by (auto split: sum.splits)
  from lpa_init_loop_inv [OF this sym ss] show ?case by simp
next
  case (Suc i)
  from Suc.prems obtain s0 where
    s0: "lpa_at rfuel poll tie gr i = Some s0"
    and step: "lpa_step rfuel poll tie i s0 = Some (Inr (Continue s))"
    by (auto split: option.splits sum.splits step.splits)
  from lpa_step_keeps [OF step Suc.IH [OF s0]] show ?case .
qed

lemma line3_wf: "symmetric line3 \<and> is_start line3 (start line3)"
  by (auto simp: symmetric_def line3_def is_start_def split: if_splits)

lemma line3_view:
  "exit_view (lpa_star 3 1 (\<lambda>i r. Inr r) (\<lambda>i. 0) line3) = Some (Converged, [((3, 1), 0)], Inr (1, 1))"
  by code_simp

lemma line3_converges:
  "\<exists>s. lpa_star 3 1 (\<lambda>i r. Inr r) (\<lambda>i. 0) line3 = Some (Inr (Converged, s))
     \<and> open_list s = [((3, 1), 0)]"
  using line3_view by (auto simp: exit_view_def split: option.splits sum.splits)

lemma converged_step:
  assumes "lpa_step rfuel poll tie j sj = Some (Inr (Exit Converged s))"
  shows "s = sj" "loop_cond sj = Inr False" "run sj"
  using assms
  by (auto simp: lpa_step_def Let_def split: sum.splits if_splits option.splits)

text \<open>
  C1, as stated, fails: on \<open>one_way\<close> the loop is left in the Converged state with
  \<open>g[end] = rhs[end] = 2\<close> while the open list holds the entry \<open>((2, 1), 2)\<close>, whose
  key is less than \<open>calcKey(end) = (2, 2)\<close>. The entry is pushed in the last pass, after
  the end node has been dequeued; no two entries ever have the same key in this run.
\<close>

theorem converged_with_smaller_key_counterexample:
  "exit_view (lpa_star 4 2 (\<lambda>i r. Inr r) (\<lambda>i. 0) one_way)
     = Some (Converged, [((2, 1), 2)], Inr (2, 2)) \<and> key_less (2, 1) (2, 2)"
  by code_simp

text \<open>
  C1, amended: the loop is left in the Converged state only when \<open>g[end] = rhs[end]\<close>
  and the key of the entry dequeued last, \<open>topKey\<close>, is not less than \<open>calcKey(end)\<close>
  computed from the current \<open>g\<close> and \<open>rhs\<close>; on a grid whose neighbor lists are
  symmetric and whose start node is tagged Start, moreover, every entry of the open list
  then carries the key of its node, and no such key is less than \<open>calcKey(end)\<close>.
\<close>

theorem converged_exit:
  "lpa_star fuel rfuel poll tie gr = Some (Inr (Converged, s)) \<Longrightarrow>
   g_of s (goal gr) = rhs_of s (goal gr) \<and> run s \<and>
   (\<exists>ke. calc_key (world s) (goal gr) (goal gr) (g_of s) (rhs_of s) = Inr ke
      \<and> \<not> key_less (topKey s) ke
      \<and> (symmetric gr \<and> is_start gr (start gr) \<longrightarrow>
           (\<forall>en \<in> set (open_list s).
              calc_key (world s) (goal gr) (snd en) (g_of s) (rhs_of s) = Inr (fst en)
              \<and> \<not> key_less (fst en) ke)))"
proof -
  assume "lpa_star fuel rfuel poll tie gr = Some (Inr (Converged, s))"
  from lpa_star_exit [OF this] obtain j sj where
    a: "lpa_at rfuel poll tie gr j = Some sj"
    and e: "lpa_step rfuel poll tie j sj = Some (Inr (Exit Converged s))" by blast
  from converged_step [OF e] have s: "s = sj" and c: "loop_cond s = Inr False" and r: "run s"
    by simp_all
  from lpa_at_inv [OF a] s have g: "goal (world s) = goal gr"
    by (simp add: same_frame_def)
  from c obtain ke where ke: "calc_key (world s) (goal gr) (goal gr) (g_of s) (rhs_of s) = Inr ke"
    by (auto simp: loop_cond_def g split: sum.splits)
  from c r ke have basic: "g_of s (goal gr) = rhs_of s (goal gr)" "\<not> key_less (topKey s) ke"
    by (auto simp: loop_cond_def g)
  have "\<forall>en \<in> set (open_list s).
      calc_key (world s) (goal gr) (snd en) (g_of s) (rhs_of s) = Inr (fst en)
      \<and> \<not> key_less (fst en) ke"
    if wf: "symmetric gr \<and> is_start gr (start gr)"
  proof -
    from wf have "symmetric gr" "is_start gr (start gr)" by simp_all
    from lpa_at_keeps [OF this a] s have "loop_inv s \<or> final_inv s"
      by simp
    moreover have "\<not> loop_inv s"
      using loop_inv_goes_on [OF _ c r] by blast
    ultimately have "final_inv s" by simp
    then obtain rr where
      "g_of s (goal gr) = Some rr" "rhs_of s (goal gr) = Some rr"
      and kf: "keys_fresh (world s) (g_of s) (rhs_of s) (open_list s)"
      and ge: "\<forall>en \<in> set (open_list s). \<not> key_less (fst en) (rr, rr)"
      unfolding final_inv_def g by blast
    with ke have "ke = (rr, rr)"
      by (simp add: calc_key_def zero_enat_def [symmetric])
    with kf ge show ?thesis
      by (simp add: keys_fresh_def g)
  qed
  with basic r ke show ?thesis by blast
qed

theorem converged_exit_witness:
  "\<exists>s ke. lpa_star 3 1 (\<lambda>i r. Inr r) (\<lambda>i. 0) line3 = Some (Inr (Converged, s))
     \<and> symmetric line3 \<and> is_start line3 (start line3)
     \<and> g_of s (goal line3) = rhs_of s (goal line3)
     \<and> open_list s = [((3, 1), 0)]
     \<and> calc_key (world s) (goal line3) (goal line3) (g_of s) (rhs_of s) = Inr ke
     \<and> calc_key (world s) (goal line3) 0 (g_of s) (rhs_of s) = Inr (3, 1)
     \<and> \<not> key_less (3, 1) ke"
proof -
  from line3_converges obtain s where
    s: "lpa_star 3 1 (\<lambda>i r. Inr r) (\<lambda>i. 0) line3 = Some (Inr (Converged, s))"
    and o: "open_list s = [((3, 1), 0)]" by blast
  from converged_exit [OF s] line3_wf o obtain ke where
    "g_of s (goal line3) = rhs_of s (goal line3)"
    "calc_key (world s) (goal line3) (goal line3) (g_of s) (rhs_of s) = Inr ke"
    "calc_key (world s) (goal line3) 0 (g_of s) (rhs_of s) = Inr (3, 1)"
    "\<not> key_less (3, 1) ke"
    by auto
  with s o line3_wf show ?thesis by blast
qed

end
